theory Spec2Isabelle
  imports Complex_Main "HOL-Library.Word" "HOL-Library.Monad_Syntax"
begin

unbundle bit_operations_syntax

section \<open>Data model of the Universe (engine/universe/universe.cpp)\<close>

text \<open>
  An entity is an integer index (\<open>EntityRef\<close>, \<open>EntityPtr\<close>); a negative index is "no entity".
  The functions of \<open>Universe\<close> are embedded as functions from a state record to an optional
  result. \<open>None\<close> is a run that does not complete normally: an \<open>ASSERT\<close> that fails, an array
  access out of range (the engine's \<open>Array::operator[]\<close> asserts its index), a shift by an
  amount outside the width of the mask, or a loop that exhausts its fuel.
\<close>

definition INVALID_ENTITY :: int where
  "INVALID_ENTITY = -1"

definition isValid :: "int \<Rightarrow> bool" where
  "isValid e = (0 \<le> e)"

datatype DVec3 = DVec3 real real real

datatype Quat = Quat real real real real

record Transform =
  pos :: DVec3
  rot :: Quat
  scale :: real

datatype RigidTransform = RigidTransform DVec3 Quat

text \<open>
  \<open>Transform::operator*\<close> and \<open>Transform::inverted\<close> are declared in engine/math.h, which is not
  among the sources; the functions that compose transforms take both as a parameter.
\<close>

record TransformMath =
  mul :: "Transform \<Rightarrow> Transform \<Rightarrow> Transform"
  inverted :: "Transform \<Rightarrow> Transform"

record EntityData =
  valid :: bool
  hierarchy :: int
  name :: int
  components :: "64 word"
  prev :: int
  next_free :: int

record Hierarchy =
  entity :: int
  parent :: int
  first_child :: int
  next_sibling :: int
  local_transform :: Transform

record EntityName =
  en_entity :: int
  en_name :: string

datatype Event =
    EntityCreated int
  | EntityDestroyed int
  | EntityTransformed int
  | ComponentAdded int int nat
  | ComponentDestroyed int int nat

text \<open>
  \<open>Array::emplace\<close> and \<open>Array::resize\<close> (engine/array.h, not among the sources) hand out
  elements whose fields the caller assigns one by one; the fields it does not assign are
  not determined by the sources. They are read from \<open>m_allocator\<close>.
\<close>

record Uninitialized =
  raw_entity :: EntityData
  raw_transform :: Transform
  raw_hierarchy :: Hierarchy
  raw_chars :: "8 word list"

record Universe =
  m_allocator :: Uninitialized
  m_entities :: "EntityData list"
  m_transforms :: "Transform list"
  m_names :: "EntityName list"
  m_hierarchy :: "Hierarchy list"
  m_first_free_slot :: int
  m_component_type_map :: "(int \<times> nat) list"
  m_events :: "Event list"
  m_log :: "string list"

definition array_get :: "'a list \<Rightarrow> int \<Rightarrow> 'a option" where
  "array_get xs i = (if 0 \<le> i \<and> i < int (length xs) then Some (xs ! nat i) else None)"

definition array_put :: "'a list \<Rightarrow> int \<Rightarrow> 'a \<Rightarrow> 'a list option" where
  "array_put xs i v = (if 0 \<le> i \<and> i < int (length xs) then Some (xs[nat i := v]) else None)"

definition invoke :: "Event \<Rightarrow> Universe \<Rightarrow> Universe" where
  "invoke ev u = u\<lparr>m_events := m_events u @ [ev]\<rparr>"

definition logError :: "string \<Rightarrow> Universe \<Rightarrow> Universe" where
  "logError msg u = u\<lparr>m_log := m_log u @ [msg]\<rparr>"

definition hasEntity :: "Universe \<Rightarrow> int \<Rightarrow> bool" where
  "hasEntity u e = (0 \<le> e \<and> e < int (length (m_entities u)) \<and> valid (m_entities u ! nat e))"

definition getTransform :: "Universe \<Rightarrow> int \<Rightarrow> Transform option" where
  "getTransform u e = array_get (m_transforms u) e"

subsection \<open>Component mask\<close>

definition MAX_TYPES_COUNT :: int where
  "MAX_TYPES_COUNT = 64"

definition type_bit :: "int \<Rightarrow> 64 word option" where
  "type_bit i = (if 0 \<le> i \<and> i < MAX_TYPES_COUNT then Some (push_bit (nat i) 1) else None)"

definition hasComponent :: "Universe \<Rightarrow> int \<Rightarrow> int \<Rightarrow> bool option" where
  "hasComponent u e t = do {
     d \<leftarrow> array_get (m_entities u) e;
     b \<leftarrow> type_bit t;
     Some ((components d AND b) \<noteq> 0)
   }"

definition getComponentsMask :: "Universe \<Rightarrow> int \<Rightarrow> 64 word option" where
  "getComponentsMask u e = map_option components (array_get (m_entities u) e)"

definition onComponentCreated :: "int \<Rightarrow> int \<Rightarrow> nat \<Rightarrow> Universe \<Rightarrow> Universe option" where
  "onComponentCreated e t scene u = do {
     d \<leftarrow> array_get (m_entities u) e;
     b \<leftarrow> type_bit t;
     ents \<leftarrow> array_put (m_entities u) e (d\<lparr>components := components d OR b\<rparr>);
     Some (invoke (ComponentAdded e t scene) (u\<lparr>m_entities := ents\<rparr>))
   }"

definition onComponentDestroyed :: "int \<Rightarrow> int \<Rightarrow> nat \<Rightarrow> Universe \<Rightarrow> Universe option" where
  "onComponentDestroyed e t scene u = do {
     d \<leftarrow> array_get (m_entities u) e;
     b \<leftarrow> type_bit t;
     let old_mask = components d;
     let mask = old_mask AND NOT b;
     if old_mask = mask then None
     else do {
       ents \<leftarrow> array_put (m_entities u) e (d\<lparr>components := mask\<rparr>);
       Some (invoke (ComponentDestroyed e t scene) (u\<lparr>m_entities := ents\<rparr>))
     }
   }"

subsection \<open>Names\<close>

text \<open>
  \<open>copyString\<close> (engine/string.h) writes into the fixed-size buffer \<open>EntityName::name\<close>; the
  size \<open>N\<close> of the buffer is declared in universe.h. Neither file is among the sources, so
  \<open>N\<close> is a parameter. Modelled from the spec: a "fixed-size display name", so at most
  \<open>N - 1\<close> characters and the terminator fit.
\<close>

definition copyString :: "nat \<Rightarrow> string \<Rightarrow> string" where
  "copyString N src = take (N - 1) src"

definition setEntityName :: "nat \<Rightarrow> int \<Rightarrow> string \<Rightarrow> Universe \<Rightarrow> Universe option" where
  "setEntityName N e nm u = do {
     d \<leftarrow> array_get (m_entities u) e;
     let name_idx = name d;
     if name_idx < 0 then
       (if nm = [] then Some u
        else do {
          ents \<leftarrow> array_put (m_entities u) e (d\<lparr>name := int (length (m_names u))\<rparr>);
          Some (u\<lparr>m_entities := ents,
                  m_names := m_names u @ [\<lparr>en_entity = e, en_name = copyString N nm\<rparr>]\<rparr>)
        })
     else do {
       n \<leftarrow> array_get (m_names u) name_idx;
       names \<leftarrow> array_put (m_names u) name_idx (n\<lparr>en_name := copyString N nm\<rparr>);
       Some (u\<lparr>m_names := names\<rparr>)
     }
   }"

definition getEntityName :: "Universe \<Rightarrow> int \<Rightarrow> string option" where
  "getEntityName u e = do {
     d \<leftarrow> array_get (m_entities u) e;
     if name d < 0 then Some []
     else map_option en_name (array_get (m_names u) (name d))
   }"

text \<open>The \<open>while\<close> loop of \<open>findByName\<close> over the children of \<open>parent\<close>.\<close>

fun findByName_children :: "nat \<Rightarrow> Universe \<Rightarrow> int \<Rightarrow> string \<Rightarrow> int option" where
  "findByName_children 0 u e nm = None"
| "findByName_children (Suc fuel) u e nm =
     (if isValid e then do {
        d \<leftarrow> array_get (m_entities u) e;
        found \<leftarrow> (if 0 \<le> name d
                  then map_option (\<lambda>n. en_name n = nm) (array_get (m_names u) (name d))
                  else Some False);
        if found then Some e
        else do {
          h \<leftarrow> array_get (m_hierarchy u) (hierarchy d);
          findByName_children fuel u (next_sibling h) nm
        }
      }
      else Some INVALID_ENTITY)"

text \<open>The \<open>for\<close> loop of \<open>findByName\<close> over the name table.\<close>

fun findByName_root :: "Universe \<Rightarrow> string \<Rightarrow> EntityName list \<Rightarrow> int option" where
  "findByName_root u nm [] = Some INVALID_ENTITY"
| "findByName_root u nm (n # ns) =
     (if en_name n = nm then do {
        d \<leftarrow> array_get (m_entities u) (en_entity n);
        if hierarchy d < 0 then Some (en_entity n)
        else do {
          h \<leftarrow> array_get (m_hierarchy u) (hierarchy d);
          if \<not> isValid (parent h) then Some (en_entity n)
          else findByName_root u nm ns
        }
      }
      else findByName_root u nm ns)"

definition findByName :: "nat \<Rightarrow> Universe \<Rightarrow> int \<Rightarrow> string \<Rightarrow> int option" where
  "findByName fuel u p nm =
     (if isValid p then do {
        d \<leftarrow> array_get (m_entities u) p;
        if hierarchy d < 0 then Some INVALID_ENTITY
        else do {
          h \<leftarrow> array_get (m_hierarchy u) (hierarchy d);
          findByName_children fuel u (first_child h) nm
        }
      }
      else findByName_root u nm (m_names u))"

subsection \<open>Hierarchy reads\<close>

definition getParent :: "Universe \<Rightarrow> int \<Rightarrow> int option" where
  "getParent u e = do {
     d \<leftarrow> array_get (m_entities u) e;
     if hierarchy d < 0 then Some INVALID_ENTITY
     else map_option parent (array_get (m_hierarchy u) (hierarchy d))
   }"

definition getFirstChild :: "Universe \<Rightarrow> int \<Rightarrow> int option" where
  "getFirstChild u e = do {
     d \<leftarrow> array_get (m_entities u) e;
     if hierarchy d < 0 then Some INVALID_ENTITY
     else map_option first_child (array_get (m_hierarchy u) (hierarchy d))
   }"

definition getNextSibling :: "Universe \<Rightarrow> int \<Rightarrow> int option" where
  "getNextSibling u e = do {
     d \<leftarrow> array_get (m_entities u) e;
     if hierarchy d < 0 then Some INVALID_ENTITY
     else map_option next_sibling (array_get (m_hierarchy u) (hierarchy d))
   }"

definition getLocalTransform :: "Universe \<Rightarrow> int \<Rightarrow> Transform option" where
  "getLocalTransform u e = do {
     d \<leftarrow> array_get (m_entities u) e;
     if hierarchy d < 0 then getTransform u e
     else map_option local_transform (array_get (m_hierarchy u) (hierarchy d))
   }"

text \<open>
  \<open>isDescendant\<close> recurses over the children of \<open>ancestor\<close> and loops over their siblings;
  neither is bounded by the code, so both consume fuel.
\<close>

fun isDescendant :: "nat \<Rightarrow> Universe \<Rightarrow> int \<Rightarrow> int \<Rightarrow> bool option"
  and isDescendant_loop :: "nat \<Rightarrow> Universe \<Rightarrow> int \<Rightarrow> int \<Rightarrow> bool option" where
  "isDescendant 0 u ancestor descendant = None"
| "isDescendant (Suc fuel) u ancestor descendant = do {
     e \<leftarrow> getFirstChild u ancestor;
     isDescendant_loop fuel u e descendant
   }"
| "isDescendant_loop 0 u e descendant = None"
| "isDescendant_loop (Suc fuel) u e descendant =
     (if isValid e then
        (if e = descendant then Some True
         else do {
           r \<leftarrow> isDescendant fuel u e descendant;
           if r then Some True
           else do {
             e' \<leftarrow> getNextSibling u e;
             isDescendant_loop fuel u e' descendant
           }
         })
      else Some False)"

subsection \<open>setParent\<close>

definition update_hierarchy :: "int \<Rightarrow> (Hierarchy \<Rightarrow> Hierarchy) \<Rightarrow> Universe \<Rightarrow> Universe option" where
  "update_hierarchy i f u = do {
     h \<leftarrow> array_get (m_hierarchy u) i;
     hs \<leftarrow> array_put (m_hierarchy u) i (f h);
     Some (u\<lparr>m_hierarchy := hs\<rparr>)
   }"

definition update_entity :: "int \<Rightarrow> (EntityData \<Rightarrow> EntityData) \<Rightarrow> Universe \<Rightarrow> Universe option" where
  "update_entity e f u = do {
     d \<leftarrow> array_get (m_entities u) e;
     ents \<leftarrow> array_put (m_entities u) e (f d);
     Some (u\<lparr>m_entities := ents\<rparr>)
   }"

text \<open>The lambda \<open>collectGarbage\<close> of \<open>setParent\<close>.\<close>

definition collectGarbage :: "int \<Rightarrow> Universe \<Rightarrow> Universe option" where
  "collectGarbage e u = do {
     d \<leftarrow> array_get (m_entities u) e;
     h \<leftarrow> array_get (m_hierarchy u) (hierarchy d);
     if isValid (parent h) then Some u
     else if isValid (first_child h) then Some u
     else do {
       let lst = last (m_hierarchy u);
       u1 \<leftarrow> update_entity (entity lst) (\<lambda>x. x\<lparr>hierarchy := hierarchy d\<rparr>) u;
       u2 \<leftarrow> update_entity e (\<lambda>x. x\<lparr>hierarchy := -1\<rparr>) u1;
       u3 \<leftarrow> update_hierarchy (hierarchy d) (\<lambda>x. lst) u2;
       Some (u3\<lparr>m_hierarchy := butlast (m_hierarchy u3)\<rparr>)
     }
   }"

text \<open>
  The pointer \<open>x\<close> of the unlink loop points at the \<open>first_child\<close> or the \<open>next_sibling\<close>
  field of an element of \<open>m_hierarchy\<close>.
\<close>

datatype Field = FirstChild int | NextSibling int

definition read_field :: "Universe \<Rightarrow> Field \<Rightarrow> int option" where
  "read_field u x = (case x of
     FirstChild i \<Rightarrow> map_option first_child (array_get (m_hierarchy u) i)
   | NextSibling i \<Rightarrow> map_option next_sibling (array_get (m_hierarchy u) i))"

definition write_field :: "Field \<Rightarrow> int \<Rightarrow> Universe \<Rightarrow> Universe option" where
  "write_field x v u = (case x of
     FirstChild i \<Rightarrow> update_hierarchy i (\<lambda>h. h\<lparr>first_child := v\<rparr>) u
   | NextSibling i \<Rightarrow> update_hierarchy i (\<lambda>h. h\<lparr>next_sibling := v\<rparr>) u)"

fun unlink_loop :: "nat \<Rightarrow> int \<Rightarrow> Field \<Rightarrow> Universe \<Rightarrow> Universe option" where
  "unlink_loop 0 child x u = None"
| "unlink_loop (Suc fuel) child x u = do {
     v \<leftarrow> read_field u x;
     if isValid v then
       (if v = child then do {
          ns \<leftarrow> getNextSibling u child;
          write_field x ns u
        }
        else do {
          d \<leftarrow> array_get (m_entities u) v;
          _ \<leftarrow> array_get (m_hierarchy u) (hierarchy d);
          unlink_loop fuel child (NextSibling (hierarchy d)) u
        })
     else Some u
   }"

text \<open>The block that appends a node for an entity that has none (twice in \<open>setParent\<close>).\<close>

definition emplace_hierarchy :: "int \<Rightarrow> Universe \<Rightarrow> (int \<times> Universe) option" where
  "emplace_hierarchy e u = do {
     let idx = int (length (m_hierarchy u));
     u1 \<leftarrow> update_entity e (\<lambda>x. x\<lparr>hierarchy := idx\<rparr>) u;
     Some (idx, u1\<lparr>m_hierarchy := m_hierarchy u1 @
       [(raw_hierarchy (m_allocator u1))\<lparr>entity := e, parent := INVALID_ENTITY,
          first_child := INVALID_ENTITY, next_sibling := INVALID_ENTITY\<rparr>]\<rparr>)
   }"

text \<open>Lines 510 to 544: detach \<open>child\<close> from its old parent, or give it a node.\<close>

definition setParent_detach :: "nat \<Rightarrow> int \<Rightarrow> int \<Rightarrow> Universe \<Rightarrow> (int \<times> Universe) option" where
  "setParent_detach fuel new_parent child u = do {
     d \<leftarrow> array_get (m_entities u) child;
     let child_idx = hierarchy d;
     if 0 \<le> child_idx then do {
       h \<leftarrow> array_get (m_hierarchy u) child_idx;
       let old_parent = parent h;
       if isValid old_parent then do {
         dp \<leftarrow> array_get (m_entities u) old_parent;
         _ \<leftarrow> array_get (m_hierarchy u) (hierarchy dp);
         u1 \<leftarrow> unlink_loop fuel child (FirstChild (hierarchy dp)) u;
         u2 \<leftarrow> update_hierarchy child_idx (\<lambda>x. x\<lparr>parent := INVALID_ENTITY\<rparr>) u1;
         u3 \<leftarrow> update_hierarchy child_idx (\<lambda>x. x\<lparr>next_sibling := INVALID_ENTITY\<rparr>) u2;
         u4 \<leftarrow> collectGarbage old_parent u3;
         d' \<leftarrow> array_get (m_entities u4) child;
         Some (hierarchy d', u4)
       }
       else Some (child_idx, u)
     }
     else if isValid new_parent then emplace_hierarchy child u
     else Some (child_idx, u)
   }"

text \<open>Lines 546 to 570: link \<open>child\<close> as the first child of \<open>new_parent\<close>, or collect its node.\<close>

definition setParent_attach ::
  "TransformMath \<Rightarrow> int \<Rightarrow> int \<Rightarrow> int \<Rightarrow> Universe \<Rightarrow> Universe option" where
  "setParent_attach M new_parent child child_idx u =
     (if isValid new_parent then do {
        dn \<leftarrow> array_get (m_entities u) new_parent;
        (new_parent_idx, u1) \<leftarrow>
          (if hierarchy dn < 0 then emplace_hierarchy new_parent u else Some (hierarchy dn, u));
        u2 \<leftarrow> update_hierarchy child_idx (\<lambda>x. x\<lparr>parent := new_parent\<rparr>) u1;
        parent_tr \<leftarrow> getTransform u2 new_parent;
        child_tr \<leftarrow> getTransform u2 child;
        u3 \<leftarrow> update_hierarchy child_idx
                (\<lambda>x. x\<lparr>local_transform := mul M (inverted M parent_tr) child_tr\<rparr>) u2;
        hp \<leftarrow> array_get (m_hierarchy u3) new_parent_idx;
        u4 \<leftarrow> update_hierarchy child_idx (\<lambda>x. x\<lparr>next_sibling := first_child hp\<rparr>) u3;
        update_hierarchy new_parent_idx (\<lambda>x. x\<lparr>first_child := child\<rparr>) u4
      }
      else if 0 \<le> child_idx then collectGarbage child u
      else Some u)"

definition setParent :: "nat \<Rightarrow> TransformMath \<Rightarrow> int \<Rightarrow> int \<Rightarrow> Universe \<Rightarrow> Universe option" where
  "setParent fuel M new_parent child u = do {
     would_create_cycle \<leftarrow>
       (if isValid new_parent then isDescendant fuel u child new_parent else Some False);
     if would_create_cycle then Some (logError ''Hierarchy can not contains a cycle.'' u)
     else do {
       (child_idx, u1) \<leftarrow> setParent_detach fuel new_parent child u;
       setParent_attach M new_parent child child_idx u1
     }
   }"

subsection \<open>Transform propagation\<close>

text \<open>
  \<open>transformEntity\<close> recurses into every child and loops over the siblings. The references
  \<open>h\<close> and \<open>child_h\<close> of the source denote elements of \<open>m_hierarchy\<close>, so each use reads the
  element as it is at that moment.
\<close>

fun transformEntity :: "nat \<Rightarrow> TransformMath \<Rightarrow> int \<Rightarrow> bool \<Rightarrow> Universe \<Rightarrow> Universe option"
  and transformEntity_children ::
    "nat \<Rightarrow> TransformMath \<Rightarrow> Transform \<Rightarrow> int \<Rightarrow> Universe \<Rightarrow> Universe option" where
  "transformEntity 0 M e update_local u = None"
| "transformEntity (Suc fuel) M e update_local u = do {
     d \<leftarrow> array_get (m_entities u) e;
     let hierarchy_idx = hierarchy d;
     let u0 = invoke (EntityTransformed e) u;
     if 0 \<le> hierarchy_idx then do {
       h \<leftarrow> array_get (m_hierarchy u0) hierarchy_idx;
       my_transform \<leftarrow> getTransform u0 e;
       u1 \<leftarrow> (if update_local \<and> isValid (parent h) then do {
                 parent_tr \<leftarrow> getTransform u0 (parent h);
                 update_hierarchy hierarchy_idx
                   (\<lambda>x. x\<lparr>local_transform := mul M (inverted M parent_tr) my_transform\<rparr>) u0
               }
               else Some u0);
       h1 \<leftarrow> array_get (m_hierarchy u1) hierarchy_idx;
       transformEntity_children fuel M my_transform (first_child h1) u1
     }
     else Some u0
   }"
| "transformEntity_children 0 M my_transform child u = None"
| "transformEntity_children (Suc fuel) M my_transform child u =
     (if isValid child then do {
        d \<leftarrow> array_get (m_entities u) child;
        child_h \<leftarrow> array_get (m_hierarchy u) (hierarchy d);
        let abs_tr = mul M my_transform (local_transform child_h);
        trs \<leftarrow> array_put (m_transforms u) child abs_tr;
        u1 \<leftarrow> transformEntity fuel M child False (u\<lparr>m_transforms := trs\<rparr>);
        child_h1 \<leftarrow> array_get (m_hierarchy u1) (hierarchy d);
        transformEntity_children fuel M my_transform (next_sibling child_h1) u1
      }
      else Some u)"

definition update_transform :: "int \<Rightarrow> (Transform \<Rightarrow> Transform) \<Rightarrow> Universe \<Rightarrow> Universe option" where
  "update_transform e f u = do {
     t \<leftarrow> array_get (m_transforms u) e;
     trs \<leftarrow> array_put (m_transforms u) e (f t);
     Some (u\<lparr>m_transforms := trs\<rparr>)
   }"

definition setRotation :: "nat \<Rightarrow> TransformMath \<Rightarrow> int \<Rightarrow> Quat \<Rightarrow> Universe \<Rightarrow> Universe option" where
  "setRotation fuel M e r u = do {
     u1 \<leftarrow> update_transform e (\<lambda>t. t\<lparr>rot := r\<rparr>) u;
     transformEntity fuel M e True u1
   }"

definition setRotation_xyzw ::
  "nat \<Rightarrow> TransformMath \<Rightarrow> int \<Rightarrow> real \<Rightarrow> real \<Rightarrow> real \<Rightarrow> real \<Rightarrow> Universe \<Rightarrow> Universe option" where
  "setRotation_xyzw fuel M e x y z w u = do {
     u1 \<leftarrow> update_transform e (\<lambda>t. t\<lparr>rot := Quat x y z w\<rparr>) u;
     transformEntity fuel M e True u1
   }"

definition setTransform :: "nat \<Rightarrow> TransformMath \<Rightarrow> int \<Rightarrow> Transform \<Rightarrow> Universe \<Rightarrow> Universe option" where
  "setTransform fuel M e transform u = do {
     u1 \<leftarrow> update_transform e (\<lambda>t. transform) u;
     transformEntity fuel M e True u1
   }"

definition setTransform_rigid ::
  "nat \<Rightarrow> TransformMath \<Rightarrow> int \<Rightarrow> RigidTransform \<Rightarrow> Universe \<Rightarrow> Universe option" where
  "setTransform_rigid fuel M e transform u = (case transform of RigidTransform p r \<Rightarrow> do {
     u1 \<leftarrow> update_transform e (\<lambda>t. t\<lparr>pos := p, rot := r\<rparr>) u;
     transformEntity fuel M e True u1
   })"

definition setTransform_prs ::
  "nat \<Rightarrow> TransformMath \<Rightarrow> int \<Rightarrow> DVec3 \<Rightarrow> Quat \<Rightarrow> real \<Rightarrow> Universe \<Rightarrow> Universe option" where
  "setTransform_prs fuel M e p r s u = do {
     u1 \<leftarrow> update_transform e (\<lambda>t. t\<lparr>pos := p, rot := r, scale := s\<rparr>) u;
     transformEntity fuel M e True u1
   }"

definition setPosition :: "nat \<Rightarrow> TransformMath \<Rightarrow> int \<Rightarrow> DVec3 \<Rightarrow> Universe \<Rightarrow> Universe option" where
  "setPosition fuel M e p u = do {
     u1 \<leftarrow> update_transform e (\<lambda>t. t\<lparr>pos := p\<rparr>) u;
     transformEntity fuel M e True u1
   }"

definition setPosition_xyz ::
  "nat \<Rightarrow> TransformMath \<Rightarrow> int \<Rightarrow> real \<Rightarrow> real \<Rightarrow> real \<Rightarrow> Universe \<Rightarrow> Universe option" where
  "setPosition_xyz fuel M e x y z u = setPosition fuel M e (DVec3 x y z) u"


definition getScale :: "Universe \<Rightarrow> int \<Rightarrow> real option" where
  "getScale u e = map_option scale (array_get (m_transforms u) e)"

definition updateGlobalTransform :: "nat \<Rightarrow> TransformMath \<Rightarrow> int \<Rightarrow> Universe \<Rightarrow> Universe option" where
  "updateGlobalTransform fuel M e u = do {
     d \<leftarrow> array_get (m_entities u) e;
     h \<leftarrow> array_get (m_hierarchy u) (hierarchy d);
     if \<not> isValid (parent h) then None
     else do {
       parent_tr \<leftarrow> getTransform u (parent h);
       setTransform fuel M e (mul M parent_tr (local_transform h)) u
     }
   }"

definition setLocalPosition :: "nat \<Rightarrow> TransformMath \<Rightarrow> int \<Rightarrow> DVec3 \<Rightarrow> Universe \<Rightarrow> Universe option" where
  "setLocalPosition fuel M e p u = do {
     d \<leftarrow> array_get (m_entities u) e;
     if hierarchy d < 0 then setPosition fuel M e p u
     else do {
       u1 \<leftarrow> update_hierarchy (hierarchy d)
               (\<lambda>x. x\<lparr>local_transform := (local_transform x)\<lparr>pos := p\<rparr>\<rparr>) u;
       updateGlobalTransform fuel M e u1
     }
   }"

definition setLocalRotation :: "nat \<Rightarrow> TransformMath \<Rightarrow> int \<Rightarrow> Quat \<Rightarrow> Universe \<Rightarrow> Universe option" where
  "setLocalRotation fuel M e r u = do {
     d \<leftarrow> array_get (m_entities u) e;
     if hierarchy d < 0 then setRotation fuel M e r u
     else do {
       u1 \<leftarrow> update_hierarchy (hierarchy d)
               (\<lambda>x. x\<lparr>local_transform := (local_transform x)\<lparr>rot := r\<rparr>\<rparr>) u;
       updateGlobalTransform fuel M e u1
     }
   }"

definition setLocalTransform ::
  "nat \<Rightarrow> TransformMath \<Rightarrow> int \<Rightarrow> Transform \<Rightarrow> Universe \<Rightarrow> Universe option" where
  "setLocalTransform fuel M e transform u = do {
     d \<leftarrow> array_get (m_entities u) e;
     if hierarchy d < 0 then setTransform fuel M e transform u
     else do {
       u1 \<leftarrow> update_hierarchy (hierarchy d) (\<lambda>x. x\<lparr>local_transform := transform\<rparr>) u;
       updateGlobalTransform fuel M e u1
     }
   }"

subsection \<open>Entity slots\<close>

definition createEntity :: "DVec3 \<Rightarrow> Quat \<Rightarrow> Universe \<Rightarrow> (int \<times> Universe) option" where
  "createEntity position rotation u = do {
     (e, u2) \<leftarrow>
       (if 0 \<le> m_first_free_slot u then do {
          let e = m_first_free_slot u;
          d \<leftarrow> array_get (m_entities u) e;
          _ \<leftarrow> array_get (m_transforms u) e;
          u1 \<leftarrow> (if 0 \<le> next_free d then update_entity (next_free d) (\<lambda>x. x\<lparr>prev := -1\<rparr>) u
                  else Some u);
          d1 \<leftarrow> array_get (m_entities u1) e;
          Some (e, u1\<lparr>m_first_free_slot := next_free d1\<rparr>)
        }
        else Some (int (length (m_entities u)),
                   u\<lparr>m_entities := m_entities u @ [raw_entity (m_allocator u)],
                     m_transforms := m_transforms u @ [raw_transform (m_allocator u)]\<rparr>));
     u3 \<leftarrow> update_transform e (\<lambda>t. t\<lparr>pos := position, rot := rotation, scale := 1\<rparr>) u2;
     u4 \<leftarrow> update_entity e
             (\<lambda>x. x\<lparr>name := -1, hierarchy := -1, components := 0, valid := True\<rparr>) u3;
     Some (e, invoke (EntityCreated e) u4)
   }"

text \<open>One iteration of the \<open>while\<close> loop of \<open>emplaceEntity\<close>: a placeholder slot is appended
  and pushed on the free list.\<close>

definition emplaceEntity_placeholder :: "Universe \<Rightarrow> Universe option" where
  "emplaceEntity_placeholder u = do {
     let a = m_allocator u;
     let u1 = u\<lparr>m_entities := m_entities u @
                  [(raw_entity a)\<lparr>valid := False, prev := -1, name := -1, hierarchy := -1,
                     next_free := m_first_free_slot u\<rparr>],
                m_transforms := m_transforms u @ [(raw_transform a)\<lparr>scale := -1\<rparr>]\<rparr>;
     u2 \<leftarrow> (if 0 \<le> m_first_free_slot u1
             then update_entity (m_first_free_slot u1)
                    (\<lambda>x. x\<lparr>prev := int (length (m_entities u1)) - 1\<rparr>) u1
             else Some u1);
     Some (u2\<lparr>m_first_free_slot := int (length (m_entities u2)) - 1\<rparr>)
   }"

function emplaceEntity_grow :: "int \<Rightarrow> Universe \<Rightarrow> Universe option" where
  "emplaceEntity_grow e u =
     (if int (length (m_entities u)) \<le> e then
        (case emplaceEntity_placeholder u of
           None \<Rightarrow> None
         | Some u' \<Rightarrow> emplaceEntity_grow e u')
      else Some u)"
  by pat_completeness auto
termination
  by (relation "measure (\<lambda>(e, u). nat (e + 1 - int (length (m_entities u))))")
     (auto simp: emplaceEntity_placeholder_def update_entity_def array_put_def Let_def
           split: bind_splits if_splits)

definition emplaceEntity :: "int \<Rightarrow> Universe \<Rightarrow> Universe option" where
  "emplaceEntity e u = do {
     u1 \<leftarrow> emplaceEntity_grow e u;
     d1 \<leftarrow> array_get (m_entities u1) e;
     let u2 = (if m_first_free_slot u1 = e then u1\<lparr>m_first_free_slot := next_free d1\<rparr> else u1);
     d2 \<leftarrow> array_get (m_entities u2) e;
     u3 \<leftarrow> (if 0 \<le> prev d2 then update_entity (prev d2) (\<lambda>x. x\<lparr>next_free := next_free d2\<rparr>) u2
             else Some u2);
     d3 \<leftarrow> array_get (m_entities u3) e;
     u4 \<leftarrow> (if 0 \<le> next_free d3 then update_entity (next_free d3) (\<lambda>x. x\<lparr>prev := prev d3\<rparr>) u3
             else Some u3);
     u5 \<leftarrow> update_transform e
             (\<lambda>t. t\<lparr>pos := DVec3 0 0 0, rot := Quat 0 0 0 1, scale := 1\<rparr>) u4;
     u6 \<leftarrow> update_entity e
             (\<lambda>x. x\<lparr>name := -1, hierarchy := -1, components := 0, valid := True\<rparr>) u5;
     Some (invoke (EntityCreated e) u6)
   }"

subsection \<open>Component dispatch\<close>

text \<open>
  Modelled from the spec: the callbacks of the owning scene module, which is not part of the
  registry (section 6: "create_fn(entity): attach payload, then call back onComponentCreated",
  "destroy_fn(entity): detach payload, then call back onComponentDestroyed"). The payload is
  outside the registry; the call back is the whole effect on it.
\<close>

definition scene_createComponent :: "nat \<Rightarrow> int \<Rightarrow> int \<Rightarrow> Universe \<Rightarrow> Universe option" where
  "scene_createComponent scene t e u = onComponentCreated e t scene u"

definition scene_destroyComponent :: "nat \<Rightarrow> int \<Rightarrow> int \<Rightarrow> Universe \<Rightarrow> Universe option" where
  "scene_destroyComponent scene t e u = onComponentDestroyed e t scene u"

definition createComponent :: "int \<Rightarrow> int \<Rightarrow> Universe \<Rightarrow> Universe option" where
  "createComponent t e u = do {
     scene \<leftarrow> map_of (m_component_type_map u) t;
     scene_createComponent scene t e u
   }"

definition destroyComponent :: "int \<Rightarrow> int \<Rightarrow> Universe \<Rightarrow> Universe option" where
  "destroyComponent e t u = do {
     scene \<leftarrow> map_of (m_component_type_map u) t;
     scene_destroyComponent scene t e u
   }"

subsection \<open>destroyEntity\<close>

text \<open>The first loop of \<open>destroyEntity\<close>: detach the first child until there is none.\<close>

fun destroyEntity_children :: "nat \<Rightarrow> TransformMath \<Rightarrow> int \<Rightarrow> Universe \<Rightarrow> Universe option" where
  "destroyEntity_children 0 M e u = None"
| "destroyEntity_children (Suc fuel) M e u = do {
     first_child \<leftarrow> getFirstChild u e;
     if isValid first_child then do {
       u1 \<leftarrow> setParent fuel M INVALID_ENTITY first_child u;
       destroyEntity_children fuel M e u1
     }
     else Some u
   }"

text \<open>The second loop: every component whose bit is set in the mask is destroyed by its scene,
  and the mask must have changed afterwards.\<close>

fun destroyEntity_components :: "int list \<Rightarrow> int \<Rightarrow> 64 word \<Rightarrow> Universe \<Rightarrow> Universe option" where
  "destroyEntity_components [] e msk u = Some u"
| "destroyEntity_components (i # is) e msk u =
     (if (msk AND push_bit (nat i) 1) \<noteq> 0 then do {
        scene \<leftarrow> map_of (m_component_type_map u) i;
        u1 \<leftarrow> scene_destroyComponent scene i e u;
        d \<leftarrow> array_get (m_entities u1) e;
        if msk = components d then None
        else destroyEntity_components is e (components d) u1
      }
      else destroyEntity_components is e msk u)"

text \<open>\<open>Array::eraseFast\<close> (engine/array.h, not among the sources). Modelled from the spec: "on
  removal, the last entry is moved into the removed slot".\<close>

definition eraseFast :: "'a list \<Rightarrow> int \<Rightarrow> 'a list option" where
  "eraseFast xs i = (if 0 \<le> i \<and> i < int (length xs) then Some (butlast (xs[nat i := last xs]))
                     else None)"

definition destroyEntity :: "nat \<Rightarrow> TransformMath \<Rightarrow> int \<Rightarrow> Universe \<Rightarrow> Universe option" where
  "destroyEntity fuel M e u = do {
     d \<leftarrow> array_get (m_entities u) e;
     if \<not> valid d then None
     else do {
       u1 \<leftarrow> destroyEntity_children fuel M e u;
       u2 \<leftarrow> setParent fuel M INVALID_ENTITY e u1;
       d2 \<leftarrow> array_get (m_entities u2) e;
       u3 \<leftarrow> destroyEntity_components [0..MAX_TYPES_COUNT - 1] e (components d2) u2;
       u4 \<leftarrow> update_entity e
               (\<lambda>x. x\<lparr>next_free := m_first_free_slot u3, prev := -1, hierarchy := -1,
                      valid := False\<rparr>) u3;
       u5 \<leftarrow> (if 0 \<le> m_first_free_slot u4
               then update_entity (m_first_free_slot u4) (\<lambda>x. x\<lparr>prev := e\<rparr>) u4
               else Some u4);
       d5 \<leftarrow> array_get (m_entities u5) e;
       u6 \<leftarrow> (if 0 \<le> name d5 then
                 (if m_names u5 = [] then None
                  else do {
                    u51 \<leftarrow> update_entity (en_entity (last (m_names u5)))
                             (\<lambda>x. x\<lparr>name := name d5\<rparr>) u5;
                    names \<leftarrow> eraseFast (m_names u51) (name d5);
                    update_entity e (\<lambda>x. x\<lparr>name := -1\<rparr>) (u51\<lparr>m_names := names\<rparr>)
                  })
               else Some u5);
       Some (invoke (EntityDestroyed e) (u6\<lparr>m_first_free_slot := e\<rparr>))
     }
   }"

subsection \<open>Streams (engine/stream.cpp)\<close>

text \<open>
  An \<open>IOutputStream\<close> is the sequence of bytes written to it so far
  (\<open>OutputMemoryStream::write\<close> copies \<open>size\<close> bytes to the position and advances it).
  An \<open>InputMemoryStream\<close> is its data and its position.
\<close>

type_synonym u8 = "8 word"

record InputMemoryStream =
  in_data :: "u8 list"
  in_pos :: nat

definition OutputMemoryStream_write :: "u8 list \<Rightarrow> u8 list \<Rightarrow> u8 list" where
  "OutputMemoryStream_write bytes out = out @ bytes"

definition InputMemoryStream_read :: "nat \<Rightarrow> InputMemoryStream \<Rightarrow> u8 list \<times> InputMemoryStream" where
  "InputMemoryStream_read len s =
     (if length (in_data s) < in_pos s + len then (replicate len 0, s)
      else (take len (drop (in_pos s) (in_data s)), s\<lparr>in_pos := in_pos s + len\<rparr>))"

text \<open>
  The object representation of an \<open>i32\<close> (and of \<open>int\<close> and of an entity index): four bytes,
  least significant first.
\<close>

definition le_nat :: "u8 list \<Rightarrow> nat" where
  "le_nat bs = foldr (\<lambda>b acc. unat b + 256 * acc) bs 0"

definition i32_bytes :: "int \<Rightarrow> u8 list" where
  "i32_bytes v = (let n = unat (word_of_int v :: 32 word) in
     [word_of_nat (n mod 256), word_of_nat (n div 256 mod 256),
      word_of_nat (n div 65536 mod 256), word_of_nat (n div 16777216 mod 256)])"

definition i32_value :: "u8 list \<Rightarrow> int" where
  "i32_value bs = sint (word_of_nat (le_nat bs) :: 32 word)"

definition read_i32 :: "InputMemoryStream \<Rightarrow> int \<times> InputMemoryStream" where
  "read_i32 s = (let (bs, s1) = InputMemoryStream_read 4 s in (i32_value bs, s1))"

text \<open>
  The object representations of \<open>EntityData\<close>, \<open>Transform\<close> and \<open>Hierarchy\<close> are fixed by
  universe.h and engine/math.h, which are not among the sources; they are a parameter.
\<close>

record Layout =
  sizeof_EntityData :: nat
  EntityData_bytes :: "EntityData \<Rightarrow> u8 list"
  EntityData_value :: "u8 list \<Rightarrow> EntityData"
  sizeof_Transform :: nat
  Transform_bytes :: "Transform \<Rightarrow> u8 list"
  Transform_value :: "u8 list \<Rightarrow> Transform"
  sizeof_Hierarchy :: nat
  Hierarchy_bytes :: "Hierarchy \<Rightarrow> u8 list"
  Hierarchy_value :: "u8 list \<Rightarrow> Hierarchy"

fun array_value :: "(u8 list \<Rightarrow> 'a) \<Rightarrow> nat \<Rightarrow> nat \<Rightarrow> u8 list \<Rightarrow> 'a list" where
  "array_value val sz 0 bs = []"
| "array_value val sz (Suc n) bs = val (take sz bs) # array_value val sz n (drop sz bs)"

definition char_byte :: "char \<Rightarrow> u8" where
  "char_byte c = word_of_nat (of_char c)"

definition byte_char :: "u8 \<Rightarrow> char" where
  "byte_char b = char_of (unat b)"

definition writeString :: "string \<Rightarrow> u8 list \<Rightarrow> u8 list" where
  "writeString str out =
     (let len = int (length str) + 1 in
      OutputMemoryStream_write (map char_byte str @ [0])
        (OutputMemoryStream_write (i32_bytes len) out))"

text \<open>
  \<open>readString\<close> fills the first bytes of a buffer of \<open>max_size\<close> bytes; the bytes behind
  them keep what the buffer held. The name is the buffer up to its first zero byte. A length
  above \<open>max_size\<close> fails the \<open>ASSERT\<close>; a negative length is converted to \<open>u64\<close> by the
  call of \<open>read\<close>, whose \<open>memcpy\<close> then runs over the buffer: neither run completes.
\<close>

fun readString_skip :: "nat \<Rightarrow> InputMemoryStream \<Rightarrow> InputMemoryStream" where
  "readString_skip 0 s = s"
| "readString_skip (Suc n) s = readString_skip n (snd (InputMemoryStream_read 1 s))"

definition readString :: "u8 list \<Rightarrow> nat \<Rightarrow> InputMemoryStream \<Rightarrow> (u8 list \<times> InputMemoryStream) option" where
  "readString buffer max_size s =
     (let (len, s1) = read_i32 s in
      if int max_size < len \<or> len < 0 then None
      else
        let n = (if len < int max_size then nat len else max_size);
            (bs, s2) = InputMemoryStream_read n s1;
            s3 = readString_skip (nat (len - int max_size)) s2
        in Some (bs @ drop n buffer, s3))"

definition c_str :: "u8 list \<Rightarrow> string option" where
  "c_str buffer = (if 0 \<in> set buffer then Some (map byte_char (takeWhile (\<lambda>b. b \<noteq> 0) buffer))
                   else None)"

definition serialize :: "Layout \<Rightarrow> Universe \<Rightarrow> u8 list \<Rightarrow> u8 list option" where
  "serialize L u out = do {
     let out1 = OutputMemoryStream_write (i32_bytes (int (length (m_entities u)))) out;
     out2 \<leftarrow> (if m_entities u \<noteq> [] then
                 (if m_transforms u = [] then None
                  else Some (OutputMemoryStream_write
                         (concat (map (Transform_bytes L) (m_transforms u)))
                         (OutputMemoryStream_write
                           (concat (map (EntityData_bytes L) (m_entities u))) out1)))
               else Some out1);
     let out3 = OutputMemoryStream_write (i32_bytes (int (length (m_names u)))) out2;
     let out4 = fold (\<lambda>n acc. writeString (en_name n)
                          (OutputMemoryStream_write (i32_bytes (en_entity n)) acc))
                  (m_names u) out3;
     let out5 = OutputMemoryStream_write (i32_bytes (m_first_free_slot u)) out4;
     let out6 = OutputMemoryStream_write (i32_bytes (int (length (m_hierarchy u)))) out5;
     Some (if m_hierarchy u \<noteq> []
           then OutputMemoryStream_write (concat (map (Hierarchy_bytes L) (m_hierarchy u))) out6
           else out6)
   }"

definition resize :: "'a \<Rightarrow> nat \<Rightarrow> 'a list \<Rightarrow> 'a list" where
  "resize raw n xs = take n xs @ replicate (n - length xs) raw"

text \<open>The name loop of \<open>deserialize\<close>.\<close>

fun deserialize_names :: "nat \<Rightarrow> nat \<Rightarrow> InputMemoryStream \<Rightarrow> Universe \<Rightarrow> (InputMemoryStream \<times> Universe) option" where
  "deserialize_names N 0 s u = Some (s, u)"
| "deserialize_names N (Suc k) s u = do {
     let buffer = take N (raw_chars (m_allocator u));
     let (e, s1) = read_i32 s;
     (buffer1, s2) \<leftarrow> readString buffer N s1;
     nm \<leftarrow> c_str buffer1;
     let u1 = u\<lparr>m_names := m_names u @ [\<lparr>en_entity = e, en_name = nm\<rparr>]\<rparr>;
     u2 \<leftarrow> update_entity e (\<lambda>x. x\<lparr>name := int (length (m_names u1)) - 1\<rparr>) u1;
     deserialize_names N k s2 u2
   }"

definition deserialize :: "Layout \<Rightarrow> nat \<Rightarrow> InputMemoryStream \<Rightarrow> Universe \<Rightarrow> Universe option" where
  "deserialize L N s u = do {
     let (count, s1) = read_i32 s;
     if count < 0 then None
     else do {
       let a = m_allocator u;
       let u1 = u\<lparr>m_entities := resize (raw_entity a) (nat count) (m_entities u),
                  m_transforms := resize (raw_transform a) (nat count) (m_transforms u)\<rparr>;
       let (u2, s3) =
         (if 0 < count then
            let (bs, s2) = InputMemoryStream_read (nat count * sizeof_EntityData L) s1;
                (bt, s3) = InputMemoryStream_read (nat count * sizeof_Transform L) s2
            in (u1\<lparr>m_entities := array_value (EntityData_value L) (sizeof_EntityData L) (nat count) bs,
                    m_transforms := array_value (Transform_value L) (sizeof_Transform L) (nat count) bt\<rparr>,
                s3)
          else (u1, s1));
       let (count2, s4) = read_i32 s3;
       (s5, u3) \<leftarrow> deserialize_names N (nat count2) s4 u2;
       let (ffs, s6) = read_i32 s5;
       let u4 = u3\<lparr>m_first_free_slot := ffs\<rparr>;
       let (count3, s7) = read_i32 s6;
       if count3 < 0 then None
       else
         let u5 = u4\<lparr>m_hierarchy := resize (raw_hierarchy a) (nat count3) (m_hierarchy u4)\<rparr> in
         Some (if 0 < count3 then
                 let (bh, s8) = InputMemoryStream_read (nat count3 * sizeof_Hierarchy L) s7
                 in u5\<lparr>m_hierarchy := array_value (Hierarchy_value L) (sizeof_Hierarchy L) (nat count3) bh\<rparr>
               else u5)
     }
   }"

subsection \<open>instantiatePrefab\<close>

text \<open>
  \<open>TextDeserializer\<close> (engine/serializer.h), \<open>PrefabVersion\<close> (engine/prefab.h),
  \<open>Reflection::getComponentTypeFromHash\<close> (engine/reflection.h) and the \<open>deserialize\<close>
  methods of the scenes are not among the sources: the reads of the deserializer, the two
  version constants, the hash table and the scenes' methods are a parameter. \<open>'d\<close> is
  the state of the deserializer over the blob of the prefab.
\<close>

record 'd PrefabReader =
  read_u32 :: "'d \<Rightarrow> 32 word \<times> 'd"
  read_u64 :: "'d \<Rightarrow> 64 word \<times> 'd"
  read_int :: "'d \<Rightarrow> int \<times> 'd"
  read_guid :: "'d \<Rightarrow> 64 word \<times> 'd"
  read_rigid :: "'d \<Rightarrow> RigidTransform \<times> 'd"
  read_float :: "'d \<Rightarrow> real \<times> 'd"
  blob_remaining :: "'d \<Rightarrow> bool"
  PrefabVersion_LAST :: nat
  PrefabVersion_WITH_HIERARCHY :: nat
  getComponentTypeFromHash :: "32 word \<Rightarrow> int"
  scene_deserialize :: "nat \<Rightarrow> int \<Rightarrow> int \<Rightarrow> int \<Rightarrow> 'd \<Rightarrow> Universe \<Rightarrow> ('d \<times> Universe) option"
  prefab_path :: string

definition PrefabEntityGUIDMap_get :: "int list \<Rightarrow> 64 word \<Rightarrow> int option" where
  "PrefabEntityGUIDMap_get entities guid =
     (if length entities \<le> unat guid then Some INVALID_ENTITY
      else array_get entities (int (unat guid)))"

definition deserializeComponent ::
  "'d PrefabReader \<Rightarrow> 'd \<Rightarrow> int \<Rightarrow> int \<Rightarrow> int \<Rightarrow> Universe \<Rightarrow> ('d \<times> Universe) option" where
  "deserializeComponent R d e t scene_version u = do {
     scene \<leftarrow> map_of (m_component_type_map u) t;
     scene_deserialize R scene t e scene_version d u
   }"

fun instantiatePrefab_create :: "nat \<Rightarrow> Universe \<Rightarrow> (int list \<times> Universe) option" where
  "instantiatePrefab_create 0 u = Some ([], u)"
| "instantiatePrefab_create (Suc n) u = do {
     (entities, u1) \<leftarrow> instantiatePrefab_create n u;
     (e, u2) \<leftarrow> createEntity (DVec3 0 0 0) (Quat 0 0 0 1) u1;
     Some (entities @ [e], u2)
   }"

fun instantiatePrefab_components ::
  "nat \<Rightarrow> 'd PrefabReader \<Rightarrow> int \<Rightarrow> 32 word \<Rightarrow> 'd \<Rightarrow> Universe \<Rightarrow> ('d \<times> Universe) option" where
  "instantiatePrefab_components 0 R e cmp_type_hash d u = None"
| "instantiatePrefab_components (Suc fuel) R e cmp_type_hash d u =
     (if cmp_type_hash \<noteq> 0 then do {
        let cmp_type = getComponentTypeFromHash R cmp_type_hash;
        let (scene_version, d1) = read_int R d;
        (d2, u1) \<leftarrow> deserializeComponent R d1 e cmp_type scene_version u;
        let (h, d3) = read_u32 R d2;
        instantiatePrefab_components fuel R e h d3 u1
      }
      else Some (d, u))"

fun instantiatePrefab_entities ::
  "nat \<Rightarrow> 'd PrefabReader \<Rightarrow> TransformMath \<Rightarrow> 32 word \<Rightarrow> int list \<Rightarrow> int \<Rightarrow>
   DVec3 \<Rightarrow> Quat \<Rightarrow> real \<Rightarrow> int \<Rightarrow> 'd \<Rightarrow> Universe \<Rightarrow> Universe option" where
  "instantiatePrefab_entities 0 R M version entities count p r s entity_idx d u = None"
| "instantiatePrefab_entities (Suc fuel) R M version entities count p r s entity_idx d u =
     (if blob_remaining R d \<and> entity_idx < count then do {
        let (prefab, d1) = read_u64 R d;
        e \<leftarrow> array_get entities entity_idx;
        u1 \<leftarrow> setTransform fuel M e \<lparr>pos = p, rot = r, scale = s\<rparr> u;
        (d4, u3) \<leftarrow>
          (if PrefabVersion_WITH_HIERARCHY R < unat version then do {
             let (guid, d2) = read_guid R d1;
             parent \<leftarrow> PrefabEntityGUIDMap_get entities guid;
             if isValid parent then do {
               let (local_tr, d3) = read_rigid R d2;
               let (sc, d4) = read_float R d3;
               u2 \<leftarrow> setParent fuel M parent e u1;
               u3 \<leftarrow> (case local_tr of RigidTransform lp lr \<Rightarrow>
                        setLocalTransform fuel M e \<lparr>pos = lp, rot = lr, scale = sc\<rparr> u2);
               Some (d4, u3)
             }
             else Some (d2, u1)
           }
           else Some (d1, u1));
        let (cmp_type_hash, d5) = read_u32 R d4;
        (d6, u4) \<leftarrow> instantiatePrefab_components fuel R e cmp_type_hash d5 u3;
        instantiatePrefab_entities fuel R M version entities count p r s (entity_idx + 1) d6 u4
      }
      else Some u)"

definition instantiatePrefab ::
  "nat \<Rightarrow> 'd PrefabReader \<Rightarrow> TransformMath \<Rightarrow> 'd \<Rightarrow> DVec3 \<Rightarrow> Quat \<Rightarrow> real \<Rightarrow> Universe \<Rightarrow>
   (int \<times> Universe) option" where
  "instantiatePrefab fuel R M blob p r s u =
     (let (version, d1) = read_u32 R blob in
      if PrefabVersion_LAST R < unat version
      then Some (INVALID_ENTITY,
                 logError (''Prefab '' @ prefab_path R @ '' has unsupported version.'') u)
      else do {
        let (count, d2) = read_int R d1;
        (entities, u1) \<leftarrow> instantiatePrefab_create (nat count) u;
        u2 \<leftarrow> instantiatePrefab_entities fuel R M version entities count p r s 0 d2 u1;
        root \<leftarrow> array_get entities 0;
        Some (root, u2)
      })"

section \<open>Specification vocabulary\<close>

subsection \<open>The transform algebra of the spec\<close>

text \<open>
  Modelled from the spec: engine/math.h is not among the sources. Section 4.2 gives the
  composition, \<open>(p * c).pos = p.pos + p.rot.rotate(c.pos) * p.scale\<close>,
  \<open>(p * c).rot = p.rot * c.rot\<close>, \<open>(p * c).scale = p.scale * c.scale\<close>, and calls the
  function of \<open>setParent\<close> the inverse, \<open>inverse(world(new_parent))\<close>: the conjugate rotation,
  the reciprocal scale, and the position that composes to the origin. \<open>float\<close> and
  \<open>double\<close> are read as real numbers here; the engine rounds.
\<close>

fun Quat_mul :: "Quat \<Rightarrow> Quat \<Rightarrow> Quat" where
  "Quat_mul (Quat ax ay az aw) (Quat bx by bz bw) =
     Quat (aw * bx + ax * bw + ay * bz - az * by)
          (aw * by - ax * bz + ay * bw + az * bx)
          (aw * bz + ax * by - ay * bx + az * bw)
          (aw * bw - ax * bx - ay * by - az * bz)"

fun Quat_conjugated :: "Quat \<Rightarrow> Quat" where
  "Quat_conjugated (Quat x y z w) = Quat (- x) (- y) (- z) w"

fun crossProduct :: "DVec3 \<Rightarrow> DVec3 \<Rightarrow> DVec3" where
  "crossProduct (DVec3 ax ay az) (DVec3 bx by bz) =
     DVec3 (ay * bz - az * by) (az * bx - ax * bz) (ax * by - ay * bx)"

fun DVec3_add :: "DVec3 \<Rightarrow> DVec3 \<Rightarrow> DVec3" where
  "DVec3_add (DVec3 ax ay az) (DVec3 bx by bz) = DVec3 (ax + bx) (ay + by) (az + bz)"

fun DVec3_scaled :: "DVec3 \<Rightarrow> real \<Rightarrow> DVec3" where
  "DVec3_scaled (DVec3 x y z) k = DVec3 (x * k) (y * k) (z * k)"

fun Quat_rotate :: "Quat \<Rightarrow> DVec3 \<Rightarrow> DVec3" where
  "Quat_rotate (Quat x y z w) v =
     (let uv = crossProduct (DVec3 x y z) v;
          uuv = crossProduct (DVec3 x y z) uv
      in DVec3_add v (DVec3_add (DVec3_scaled uv (2 * w)) (DVec3_scaled uuv 2)))"

definition Transform_mul :: "Transform \<Rightarrow> Transform \<Rightarrow> Transform" where
  "Transform_mul p c =
     \<lparr>pos = DVec3_add (pos p) (DVec3_scaled (Quat_rotate (rot p) (pos c)) (scale p)),
      rot = Quat_mul (rot p) (rot c),
      scale = scale p * scale c\<rparr>"

definition Transform_inverted :: "Transform \<Rightarrow> Transform" where
  "Transform_inverted t =
     \<lparr>pos = Quat_rotate (Quat_conjugated (rot t)) (DVec3_scaled (pos t) (- 1 / scale t)),
      rot = Quat_conjugated (rot t),
      scale = 1 / scale t\<rparr>"

definition spec_math :: TransformMath where
  "spec_math = \<lparr>mul = Transform_mul, inverted = Transform_inverted\<rparr>"

subsection \<open>What setParent may change\<close>

text \<open>
  \<open>hierarchy_frame u u'\<close>: the two states differ at most in the hierarchy table and in the
  hierarchy index of the entity records.
\<close>

definition hierarchy_frame :: "Universe \<Rightarrow> Universe \<Rightarrow> bool" where
  "hierarchy_frame u u' \<longleftrightarrow>
     m_allocator u' = m_allocator u \<and> m_transforms u' = m_transforms u \<and>
     m_names u' = m_names u \<and> m_first_free_slot u' = m_first_free_slot u \<and>
     m_component_type_map u' = m_component_type_map u \<and>
     m_events u' = m_events u \<and> m_log u' = m_log u \<and>
     map (\<lambda>d. d\<lparr>hierarchy := 0\<rparr>) (m_entities u') = map (\<lambda>d. d\<lparr>hierarchy := 0\<rparr>) (m_entities u)"

subsection \<open>Example states\<close>

definition ex_transform :: "real \<Rightarrow> real \<Rightarrow> Transform" where
  "ex_transform px s = \<lparr>pos = DVec3 px 0 0, rot = Quat 0 0 0 1, scale = s\<rparr>"

definition ex_entity :: "int \<Rightarrow> int \<Rightarrow> EntityData" where
  "ex_entity h n = \<lparr>valid = True, hierarchy = h, name = n, components = 0, prev = -1, next_free = -1\<rparr>"

definition ex_allocator :: Uninitialized where
  "ex_allocator =
     \<lparr>raw_entity = \<lparr>valid = False, hierarchy = 7, name = 7, components = 7, prev = 7, next_free = 7\<rparr>,
      raw_transform = ex_transform 7 7,
      raw_hierarchy = \<lparr>entity = 7, parent = 7, first_child = 7, next_sibling = 7,
                        local_transform = ex_transform 7 7\<rparr>,
      raw_chars = []\<rparr>"

text \<open>Three live entities without hierarchy; entities 0 and 1 are named.\<close>

definition ex_flat :: Universe where
  "ex_flat =
     \<lparr>m_allocator = ex_allocator,
      m_entities = [ex_entity (-1) 0, ex_entity (-1) 1, ex_entity (-1) (-1)],
      m_transforms = [ex_transform 1 2, ex_transform 3 1, ex_transform 0 1],
      m_names = [\<lparr>en_entity = 0, en_name = ''root''\<rparr>, \<lparr>en_entity = 1, en_name = ''a''\<rparr>],
      m_hierarchy = [],
      m_first_free_slot = -1,
      m_component_type_map = [(2, 7)],
      m_events = [],
      m_log = []\<rparr>"

text \<open>The same entities with entity 1 a child of entity 0.\<close>

definition ex_tree :: Universe where
  "ex_tree =
     \<lparr>m_allocator = ex_allocator,
      m_entities = [ex_entity 0 0, ex_entity 1 1, ex_entity (-1) (-1)],
      m_transforms = [ex_transform 1 2, ex_transform 3 1, ex_transform 0 1],
      m_names = [\<lparr>en_entity = 0, en_name = ''root''\<rparr>, \<lparr>en_entity = 1, en_name = ''a''\<rparr>],
      m_hierarchy =
        [\<lparr>entity = 0, parent = -1, first_child = 1, next_sibling = -1,
          local_transform = ex_transform 7 7\<rparr>,
         \<lparr>entity = 1, parent = 0, first_child = -1, next_sibling = -1,
          local_transform = ex_transform 1 (1 / 2)\<rparr>],
      m_first_free_slot = -1,
      m_component_type_map = [(2, 7)],
      m_events = [],
      m_log = []\<rparr>"

text \<open>A deserializer over a list of numbers, one number for each read.\<close>

definition ex_reader :: "nat list PrefabReader" where
  "ex_reader =
     \<lparr>read_u32 = (\<lambda>d. case d of [] \<Rightarrow> (0, []) | x # xs \<Rightarrow> (word_of_nat x, xs)),
      read_u64 = (\<lambda>d. case d of [] \<Rightarrow> (0, []) | x # xs \<Rightarrow> (word_of_nat x, xs)),
      read_int = (\<lambda>d. case d of [] \<Rightarrow> (0, []) | x # xs \<Rightarrow> (int x, xs)),
      read_guid = (\<lambda>d. case d of [] \<Rightarrow> (0, []) | x # xs \<Rightarrow> (word_of_nat x, xs)),
      read_rigid = (\<lambda>d. case d of [] \<Rightarrow> (RigidTransform (DVec3 0 0 0) (Quat 0 0 0 1), [])
                       | x # xs \<Rightarrow> (RigidTransform (DVec3 (real x) 0 0) (Quat 0 0 0 1), xs)),
      read_float = (\<lambda>d. case d of [] \<Rightarrow> (0, []) | x # xs \<Rightarrow> (real x, xs)),
      blob_remaining = (\<lambda>d. d \<noteq> []),
      PrefabVersion_LAST = 3,
      PrefabVersion_WITH_HIERARCHY = 2,
      getComponentTypeFromHash = (\<lambda>h. int (unat h)),
      scene_deserialize = (\<lambda>scene t e v d u. map_option (Pair d) (onComponentCreated e t scene u)),
      prefab_path = ''p.fab''\<rparr>"


section \<open>Well-formed hierarchies\<close>

subsection \<open>The nodes of the hierarchy table\<close>

text \<open>
  \<open>node_of u e\<close> is the hierarchy node of entity \<open>e\<close>, the element of \<open>m_hierarchy\<close> at the
  index held by the entity record, if the entity has one. \<open>parent_of\<close>, \<open>first_child_of\<close>,
  \<open>next_sibling_of\<close> and \<open>local_of\<close> read its fields; an entity without a node has no parent,
  child or sibling.
\<close>

definition node_of :: "Universe \<Rightarrow> int \<Rightarrow> Hierarchy option" where
  "node_of u e = (case array_get (m_entities u) e of
       None \<Rightarrow> None
     | Some d \<Rightarrow> if hierarchy d < 0 then None else array_get (m_hierarchy u) (hierarchy d))"

definition parent_of :: "Universe \<Rightarrow> int \<Rightarrow> int" where
  "parent_of u e = (case node_of u e of None \<Rightarrow> INVALID_ENTITY | Some h \<Rightarrow> parent h)"

definition first_child_of :: "Universe \<Rightarrow> int \<Rightarrow> int" where
  "first_child_of u e = (case node_of u e of None \<Rightarrow> INVALID_ENTITY | Some h \<Rightarrow> first_child h)"

definition next_sibling_of :: "Universe \<Rightarrow> int \<Rightarrow> int" where
  "next_sibling_of u e = (case node_of u e of None \<Rightarrow> INVALID_ENTITY | Some h \<Rightarrow> next_sibling h)"

definition local_of :: "Universe \<Rightarrow> int \<Rightarrow> Transform option" where
  "local_of u e = map_option local_transform (node_of u e)"

definition in_range :: "Universe \<Rightarrow> int \<Rightarrow> bool" where
  "in_range u e \<longleftrightarrow> 0 \<le> e \<and> e < int (length (m_entities u))"

text \<open>
  \<open>index_ok\<close>: the transform store is as long as the slot table, every node names an entity
  whose record points back at the node, and every record points at no node or at its own.
\<close>

definition index_ok :: "Universe \<Rightarrow> bool" where
  "index_ok u \<longleftrightarrow>
     length (m_transforms u) = length (m_entities u) \<and>
     (\<forall>i < length (m_hierarchy u).
        0 \<le> entity (m_hierarchy u ! i) \<and> entity (m_hierarchy u ! i) < int (length (m_entities u)) \<and>
        hierarchy (m_entities u ! nat (entity (m_hierarchy u ! i))) = int i) \<and>
     (\<forall>e < length (m_entities u).
        hierarchy (m_entities u ! e) < int (length (m_hierarchy u)) \<and>
        (0 \<le> hierarchy (m_entities u ! e) \<longrightarrow>
           entity (m_hierarchy u ! nat (hierarchy (m_entities u ! e))) = int e))"

subsection \<open>Forests\<close>

text \<open>
  \<open>chain D S x cs\<close>: following the sibling links \<open>S\<close> from \<open>x\<close> visits exactly the list \<open>cs\<close>
  and ends at "no entity". \<open>parent_rel D P\<close> is the relation "is the parent of" on the
  entities \<open>D\<close> that have a node; its transitive closure is "has as a descendant".
  \<open>forest\<close>: the parent of a node has a node, a node without parent has no sibling, the
  child list of every node holds exactly the nodes that name it as parent, and no entity
  is its own descendant.
\<close>

primrec chain :: "int set \<Rightarrow> (int \<Rightarrow> int) \<Rightarrow> int \<Rightarrow> int list \<Rightarrow> bool" where
  "chain D S x [] = (x < 0)"
| "chain D S x (a # as) = (x = a \<and> 0 \<le> a \<and> a \<in> D \<and> chain D S (S a) as)"

definition parent_rel :: "int set \<Rightarrow> (int \<Rightarrow> int) \<Rightarrow> (int \<times> int) set" where
  "parent_rel D P = {(p, c). c \<in> D \<and> P c = p \<and> 0 \<le> p}"

definition forest :: "int set \<Rightarrow> (int \<Rightarrow> int) \<Rightarrow> (int \<Rightarrow> int) \<Rightarrow> (int \<Rightarrow> int) \<Rightarrow> bool" where
  "forest D P F S \<longleftrightarrow>
     (\<forall>e \<in> D. 0 \<le> e \<and> - 1 \<le> P e \<and> (0 \<le> P e \<longrightarrow> P e \<in> D) \<and> (P e < 0 \<longrightarrow> S e < 0) \<and>
        (\<exists>cs. chain D S (F e) cs \<and> set cs = {c \<in> D. P c = e})) \<and>
     acyclic (parent_rel D P)"

definition wf_hierarchy :: "Universe \<Rightarrow> bool" where
  "wf_hierarchy u \<longleftrightarrow>
     index_ok u \<and>
     forest (dom (node_of u)) (parent_of u) (first_child_of u) (next_sibling_of u)"

abbreviation hierarchy_rel :: "Universe \<Rightarrow> (int \<times> int) set" where
  "hierarchy_rel u \<equiv> parent_rel (dom (node_of u)) (parent_of u)"

abbreviation forest_of :: "Universe \<Rightarrow> bool" where
  "forest_of u \<equiv> forest (dom (node_of u)) (parent_of u) (first_child_of u) (next_sibling_of u)"

text \<open>The node that \<open>emplace_hierarchy\<close> appends, and the two fields the unlink loop walks.\<close>

definition fresh_node :: "Universe \<Rightarrow> int \<Rightarrow> Hierarchy" where
  "fresh_node u e = (raw_hierarchy (m_allocator u))\<lparr>entity := e, parent := INVALID_ENTITY,
          first_child := INVALID_ENTITY, next_sibling := INVALID_ENTITY\<rparr>"

definition set_field :: "bool \<Rightarrow> int \<Rightarrow> Hierarchy \<Rightarrow> Hierarchy" where
  "set_field fc v h = (if fc then h\<lparr>first_child := v\<rparr> else h\<lparr>next_sibling := v\<rparr>)"

definition get_field :: "bool \<Rightarrow> Hierarchy \<Rightarrow> int" where
  "get_field fc h = (if fc then first_child h else next_sibling h)"

definition field_ref :: "bool \<Rightarrow> int \<Rightarrow> Field" where
  "field_ref fc j = (if fc then FirstChild j else NextSibling j)"

subsection \<open>What destroyEntity relies on\<close>

text \<open>
  \<open>names_ok\<close>: every entry of the name table names an entity of the slot table whose record
  points back at the entry, and no record points behind the table. \<open>components_ok\<close>: every
  component bit set in a record has a scene registered for its type. \<open>destroyEntity\<close> indexes
  both tables without a check.
\<close>

definition names_ok :: "Universe \<Rightarrow> bool" where
  "names_ok u \<longleftrightarrow>
     (\<forall>k < length (m_names u).
        0 \<le> en_entity (m_names u ! k) \<and>
        en_entity (m_names u ! k) < int (length (m_entities u)) \<and>
        name (m_entities u ! nat (en_entity (m_names u ! k))) = int k) \<and>
     (\<forall>d \<in> set (m_entities u). name d < int (length (m_names u)))"

definition components_ok :: "Universe \<Rightarrow> bool" where
  "components_ok u \<longleftrightarrow>
     (\<forall>d \<in> set (m_entities u). \<forall>i \<in> set [0..MAX_TYPES_COUNT - 1].
        components d AND push_bit (nat i) 1 \<noteq> 0 \<longrightarrow>
        map_of (m_component_type_map u) i \<noteq> None)"

text \<open>
  \<open>slots_frame e u u'\<close>: the two states have the same hierarchy table and world transforms, and
  the records of all entities but \<open>e\<close> point at the same nodes. \<open>same_hierarchy u v\<close>: the two
  states differ at most in the world transforms, the events and the log.
\<close>

definition slots_frame :: "int \<Rightarrow> Universe \<Rightarrow> Universe \<Rightarrow> bool" where
  "slots_frame e u u' \<longleftrightarrow>
     m_hierarchy u' = m_hierarchy u \<and> m_transforms u' = m_transforms u \<and>
     length (m_entities u') = length (m_entities u) \<and>
     (\<forall>y. y \<noteq> nat e \<longrightarrow> hierarchy (m_entities u' ! y) = hierarchy (m_entities u ! y))"

definition same_hierarchy :: "Universe \<Rightarrow> Universe \<Rightarrow> bool" where
  "same_hierarchy u v \<longleftrightarrow>
     m_entities v = m_entities u \<and> m_hierarchy v = m_hierarchy u \<and>
     length (m_transforms v) = length (m_transforms u)"

subsection \<open>The transform invariant\<close>










subsection \<open>More example states\<close>

text \<open>
  Five live entities: 1 and 2 are children of 0 (2 was attached last and is the first child),
  3 is a child of 1, 4 has no node. The world transforms satisfy the invariant for the
  transform algebra of the spec. Entity 0 has the component of type 2.
\<close>

definition ex_node :: "int \<Rightarrow> int \<Rightarrow> int \<Rightarrow> int \<Rightarrow> Transform \<Rightarrow> Hierarchy" where
  "ex_node e p f s l =
     \<lparr>entity = e, parent = p, first_child = f, next_sibling = s, local_transform = l\<rparr>"

definition ex_family :: Universe where
  "ex_family =
     \<lparr>m_allocator = ex_allocator,
      m_entities = [(ex_entity 0 0)\<lparr>components := 4\<rparr>, ex_entity 1 1, ex_entity 2 (-1),
                    ex_entity 3 (-1), ex_entity (-1) (-1)],
      m_transforms = [ex_transform 1 2, ex_transform 3 1, ex_transform 5 2, ex_transform 4 1,
                      ex_transform 0 1],
      m_names = [\<lparr>en_entity = 0, en_name = ''root''\<rparr>, \<lparr>en_entity = 1, en_name = ''a''\<rparr>],
      m_hierarchy =
        [ex_node 0 (-1) 2 (-1) (ex_transform 7 7),
         ex_node 1 0 3 (-1) (ex_transform 1 (1 / 2)),
         ex_node 2 0 (-1) 1 (ex_transform 2 1),
         ex_node 3 1 (-1) (-1) (ex_transform 1 1)],
      m_first_free_slot = -1,
      m_component_type_map = [(2, 7)],
      m_events = [],
      m_log = []\<rparr>"



section \<open>Basic facts about the embedding\<close>

lemma type_bit_nonzero: "type_bit t = Some b \<Longrightarrow> b \<noteq> 0"
  by (auto simp: type_bit_def MAX_TYPES_COUNT_def split: if_splits)

lemma or_and_self: "((x::64 word) OR b) AND b = b"
  by (simp add: bit_eq_iff bit_and_iff bit_or_iff)

lemma andnot_and: "((x::64 word) AND NOT b) AND b = 0"
  by (simp add: bit_eq_iff bit_and_iff bit_not_iff)

lemma and_nonzero_changes: "(x::64 word) AND b \<noteq> 0 \<Longrightarrow> x \<noteq> x AND NOT b"
  by (metis andnot_and)

lemma array_get_put:
  "array_put xs i v = Some ys \<Longrightarrow> array_get ys j = (if j = i then Some v else array_get xs j)"
  by (auto simp: array_get_def array_put_def split: if_splits)

lemma array_put_Some: "array_get xs i = Some d \<Longrightarrow> \<exists>ys. array_put xs i v = Some ys"
  by (auto simp: array_get_def array_put_def split: if_splits)


lemma array_get_Some_iff:
  "array_get xs i = Some v \<longleftrightarrow> 0 \<le> i \<and> i < int (length xs) \<and> v = xs ! nat i"
  by (auto simp: array_get_def)

lemma array_put_Some_iff:
  "array_put xs i v = Some ys \<longleftrightarrow> 0 \<le> i \<and> i < int (length xs) \<and> ys = xs[nat i := v]"
  by (auto simp: array_put_def)

lemma update_hierarchy_Some_iff:
  "update_hierarchy i f u = Some u' \<longleftrightarrow>
     0 \<le> i \<and> i < int (length (m_hierarchy u)) \<and>
     u' = u\<lparr>m_hierarchy := (m_hierarchy u)[nat i := f (m_hierarchy u ! nat i)]\<rparr>"
  by (auto simp: update_hierarchy_def array_get_def array_put_def split: bind_splits)

lemma update_entity_Some_iff:
  "update_entity e f u = Some u' \<longleftrightarrow>
     0 \<le> e \<and> e < int (length (m_entities u)) \<and>
     u' = u\<lparr>m_entities := (m_entities u)[nat e := f (m_entities u ! nat e)]\<rparr>"
  by (auto simp: update_entity_def array_get_def array_put_def split: bind_splits)


lemma hierarchy_frame_refl: "hierarchy_frame u u"
  by (simp add: hierarchy_frame_def)

lemma hierarchy_frame_trans:
  "hierarchy_frame u v \<Longrightarrow> hierarchy_frame v w \<Longrightarrow> hierarchy_frame u w"
  by (simp add: hierarchy_frame_def)

lemma hierarchy_frame_update_hierarchy:
  "update_hierarchy i f u = Some u' \<Longrightarrow> hierarchy_frame u u'"
  by (auto simp: update_hierarchy_Some_iff hierarchy_frame_def)

lemma hierarchy_frame_update_entity:
  assumes "update_entity e (\<lambda>x. x\<lparr>hierarchy := k\<rparr>) u = Some u'"
  shows "hierarchy_frame u u'"
  using assms
  by (auto simp: update_entity_Some_iff hierarchy_frame_def map_update list_update_same_conv)

lemma hierarchy_frame_write_field:
  "write_field x v u = Some u' \<Longrightarrow> hierarchy_frame u u'"
  by (auto simp: write_field_def split: Field.splits dest: hierarchy_frame_update_hierarchy)

lemma hierarchy_frame_collectGarbage:
  assumes "collectGarbage e u = Some u'"
  shows "hierarchy_frame u u'"
proof -
  have *: "hierarchy_frame u (v\<lparr>m_hierarchy := hs\<rparr>)" if "hierarchy_frame u v" for v hs
    using that by (simp add: hierarchy_frame_def)
  show ?thesis
    using assms
    by (auto simp: collectGarbage_def Let_def hierarchy_frame_refl split: bind_splits if_splits
             intro!: * intro: hierarchy_frame_trans
             dest!: hierarchy_frame_update_entity hierarchy_frame_update_hierarchy)
qed

lemma hierarchy_frame_unlink_loop:
  "unlink_loop fuel child x u = Some u' \<Longrightarrow> hierarchy_frame u u'"
proof (induction fuel arbitrary: x)
  case 0
  then show ?case by simp
next
  case (Suc fuel)
  then show ?case
    by (auto simp: hierarchy_frame_refl split: bind_splits if_splits
             dest: hierarchy_frame_write_field)
qed

lemma hierarchy_frame_emplace_hierarchy:
  assumes "emplace_hierarchy e u = Some (i, u')"
  shows "hierarchy_frame u u'"
  using assms
  by (auto simp: emplace_hierarchy_def Let_def hierarchy_frame_def split: bind_splits
           dest!: hierarchy_frame_update_entity)

lemma hierarchy_frame_setParent_detach:
  assumes "setParent_detach fuel new_parent child u = Some (i, u')"
  shows "hierarchy_frame u u'"
  using assms
  by (auto simp: setParent_detach_def Let_def hierarchy_frame_refl split: bind_splits if_splits
           dest!: hierarchy_frame_unlink_loop hierarchy_frame_update_hierarchy
                  hierarchy_frame_collectGarbage hierarchy_frame_emplace_hierarchy
           intro: hierarchy_frame_trans)

lemma hierarchy_frame_setParent_attach:
  assumes "setParent_attach M new_parent child i u = Some u'"
  shows "hierarchy_frame u u'"
  using assms
  apply (auto simp: setParent_attach_def Let_def hierarchy_frame_refl split: bind_splits if_splits prod.splits
           dest!: hierarchy_frame_update_hierarchy
                  hierarchy_frame_collectGarbage hierarchy_frame_emplace_hierarchy)
  apply (simp_all add: hierarchy_frame_def)
  done

lemma update_entity_get:
  "update_entity e f u = Some u' \<Longrightarrow>
   array_get (m_entities u') e' =
     (if e' = e then map_option f (array_get (m_entities u) e) else array_get (m_entities u) e')"
  by (auto simp: update_entity_Some_iff array_get_def)

lemma update_entity_Some_get:
  "update_entity e f u = Some u' \<Longrightarrow> \<exists>d. array_get (m_entities u) e = Some d"
  by (auto simp: update_entity_Some_iff array_get_def)

lemma emplace_hierarchy_get:
  assumes "emplace_hierarchy e u = Some (i, u')"
  shows "\<exists>d. array_get (m_entities u') e = Some d \<and> hierarchy d = i"
proof -
  obtain u1 where u1: "update_entity e (\<lambda>x. x\<lparr>hierarchy := int (length (m_hierarchy u))\<rparr>) u = Some u1"
    and i: "i = int (length (m_hierarchy u))"
    and u': "u' = u1\<lparr>m_hierarchy := m_hierarchy u1 @
       [(raw_hierarchy (m_allocator u1))\<lparr>entity := e, parent := INVALID_ENTITY,
          first_child := INVALID_ENTITY, next_sibling := INVALID_ENTITY\<rparr>]\<rparr>"
    using assms by (auto simp: emplace_hierarchy_def Let_def split: bind_splits)
  from update_entity_Some_get[OF u1] obtain d where "array_get (m_entities u) e = Some d" by blast
  then show ?thesis using update_entity_get[OF u1, of e] i u' by simp
qed

lemma setParent_detach_index:
  assumes "setParent_detach fuel new_parent child u = Some (i, u')"
  shows "\<exists>d. array_get (m_entities u') child = Some d \<and> hierarchy d = i"
proof -
  obtain d where d: "array_get (m_entities u) child = Some d"
    using assms by (auto simp: setParent_detach_def split: bind_splits)
  show ?thesis
  proof (cases "0 \<le> hierarchy d")
    case True
    then obtain h where h: "array_get (m_hierarchy u) (hierarchy d) = Some h"
      using assms d by (auto simp: setParent_detach_def Let_def split: bind_splits)
    show ?thesis
    proof (cases "isValid (parent h)")
      case True
      then show ?thesis using assms d h \<open>0 \<le> hierarchy d\<close>
        by (auto simp: setParent_detach_def Let_def split: bind_splits)
    next
      case False
      then show ?thesis using assms d h \<open>0 \<le> hierarchy d\<close>
        by (auto simp: setParent_detach_def Let_def)
    qed
  next
    case False
    then show ?thesis using assms d
      by (auto simp: setParent_detach_def Let_def dest: emplace_hierarchy_get split: if_splits)
  qed
qed


lemma update_hierarchy_get:
  "update_hierarchy i f u = Some u' \<Longrightarrow>
   array_get (m_hierarchy u') j =
     (if j = i then map_option f (array_get (m_hierarchy u) i) else array_get (m_hierarchy u) j)"
  by (auto simp: update_hierarchy_Some_iff array_get_def)

lemma update_hierarchy_Some_get:
  "update_hierarchy i f u = Some u' \<Longrightarrow> \<exists>h. array_get (m_hierarchy u) i = Some h"
  by (auto simp: update_hierarchy_Some_iff array_get_def)

lemma update_hierarchy_others:
  "update_hierarchy i f u = Some u' \<Longrightarrow>
   m_entities u' = m_entities u \<and> m_transforms u' = m_transforms u"
  by (auto simp: update_hierarchy_Some_iff)

lemma emplace_hierarchy_others:
  assumes "emplace_hierarchy e u = Some (i, u')"
  shows "m_transforms u' = m_transforms u"
    and "x \<noteq> e \<Longrightarrow> array_get (m_entities u') x = array_get (m_entities u) x"
  using assms
  by (auto simp: emplace_hierarchy_def Let_def update_entity_Some_iff array_get_def
           split: bind_splits)

lemma setParent_attach_local:
  assumes a: "setParent_attach M new_parent child i u = Some u'" and v: "isValid new_parent"
      and d: "array_get (m_entities u) child = Some d" and i: "hierarchy d = i"
  shows "\<exists>tp tc. getTransform u new_parent = Some tp \<and> getTransform u child = Some tc \<and>
           getLocalTransform u' child = Some (mul M (inverted M tp) tc)"
proof -
  from a v obtain dn j u1 u2 tp tc u3 hp u4 where
        dn: "array_get (m_entities u) new_parent = Some dn"
    and s1: "(if hierarchy dn < 0 then emplace_hierarchy new_parent u else Some (hierarchy dn, u))
               = Some (j, u1)"
    and s2: "update_hierarchy i (\<lambda>x. x\<lparr>parent := new_parent\<rparr>) u1 = Some u2"
    and tp: "getTransform u2 new_parent = Some tp"
    and tc: "getTransform u2 child = Some tc"
    and s3: "update_hierarchy i (\<lambda>x. x\<lparr>local_transform := mul M (inverted M tp) tc\<rparr>) u2 = Some u3"
    and hp: "array_get (m_hierarchy u3) j = Some hp"
    and s4: "update_hierarchy i (\<lambda>x. x\<lparr>next_sibling := first_child hp\<rparr>) u3 = Some u4"
    and s5: "update_hierarchy j (\<lambda>x. x\<lparr>first_child := child\<rparr>) u4 = Some u'"
    by (auto simp: setParent_attach_def split: bind_splits)
  have i0: "0 \<le> i" using s2 by (simp add: update_hierarchy_Some_iff)
  have u1: "m_transforms u1 = m_transforms u \<and> array_get (m_entities u1) child = Some d"
  proof (cases "hierarchy dn < 0")
    case True
    then have e: "emplace_hierarchy new_parent u = Some (j, u1)" using s1 by simp
    have "child \<noteq> new_parent" using True i0 i d dn by auto
    then show ?thesis using emplace_hierarchy_others[OF e] d by simp
  next
    case False
    then show ?thesis using s1 d by simp
  qed
  have ents: "m_entities u' = m_entities u1" and trs: "m_transforms u2 = m_transforms u"
    using update_hierarchy_others[OF s2] update_hierarchy_others[OF s3]
          update_hierarchy_others[OF s4] update_hierarchy_others[OF s5] u1 by simp_all
  obtain h2 where h2: "array_get (m_hierarchy u2) i = Some h2"
    using update_hierarchy_Some_get[OF s3] by blast
  have l3: "map_option local_transform (array_get (m_hierarchy u3) i) = Some (mul M (inverted M tp) tc)"
    using update_hierarchy_get[OF s3, of i] h2 by simp
  have l4: "map_option local_transform (array_get (m_hierarchy u4) i) = Some (mul M (inverted M tp) tc)"
    using update_hierarchy_get[OF s4, of i] l3 by (auto simp: map_option_case split: option.splits)
  have l5: "map_option local_transform (array_get (m_hierarchy u') i) = Some (mul M (inverted M tp) tc)"
    using update_hierarchy_get[OF s5, of i] l4 by (auto simp: map_option_case split: option.splits)
  show ?thesis
    using tp tc trs l5 u1 ents i i0 by (simp add: getTransform_def getLocalTransform_def)
qed

lemma findByName_root_skip:
  "\<forall>x \<in> set pre. en_name x \<noteq> nm \<Longrightarrow>
   findByName_root u nm (pre @ rest) = findByName_root u nm rest"
  by (induction pre) auto


section \<open>Examples are evaluated by unfolding\<close>

lemmas ex_defs = ex_flat_def ex_tree_def ex_entity_def ex_transform_def ex_allocator_def

section \<open>Claims about components and prefabs\<close>

text \<open>
  Claim C7. Once the owning scene calls back \<open>onComponentCreated(e, t)\<close> for an entity slot in range and a type
  index below 64, the call completes, \<open>hasComponent(e, t)\<close> is true and exactly one \<open>componentAdded\<close>
  event for \<open>(e, t)\<close> has been appended to the events fired. If the bit of \<open>t\<close> is set,
  \<open>onComponentDestroyed(e, t)\<close> completes (its assertion that the mask changed holds), the bit
  is clear afterwards and exactly one \<open>componentDestroyed\<close> event has been appended.
\<close>

theorem component_mask_dispatch:
  assumes "array_get (m_entities u) e = Some d" and "0 \<le> t" and "t < MAX_TYPES_COUNT"
  shows "(\<exists>u'. onComponentCreated e t scene u = Some u' \<and> hasComponent u' e t = Some True
              \<and> m_events u' = m_events u @ [ComponentAdded e t scene])
       \<and> (hasComponent u e t = Some True \<longrightarrow>
            (\<exists>u'. onComponentDestroyed e t scene u = Some u' \<and> hasComponent u' e t = Some False
              \<and> m_events u' = m_events u @ [ComponentDestroyed e t scene]))"
proof -
  obtain b where b: "type_bit t = Some b"
    using assms by (auto simp: type_bit_def)
  have bnz: "b \<noteq> 0" using b by (rule type_bit_nonzero)
  obtain ys where ys: "array_put (m_entities u) e (d\<lparr>components := components d OR b\<rparr>) = Some ys"
    using array_put_Some[OF assms(1)] by blast
  have created: "\<exists>u'. onComponentCreated e t scene u = Some u' \<and> hasComponent u' e t = Some True
              \<and> m_events u' = m_events u @ [ComponentAdded e t scene]"
    using assms(1) b ys bnz
    by (simp add: onComponentCreated_def hasComponent_def invoke_def array_get_put or_and_self)
  have destroyed: "\<exists>u'. onComponentDestroyed e t scene u = Some u' \<and> hasComponent u' e t = Some False
              \<and> m_events u' = m_events u @ [ComponentDestroyed e t scene]"
    if h: "hasComponent u e t = Some True"
  proof -
    have nz: "components d AND b \<noteq> 0"
      using h assms(1) b by (simp add: hasComponent_def)
    obtain zs where zs: "array_put (m_entities u) e (d\<lparr>components := components d AND NOT b\<rparr>) = Some zs"
      using array_put_Some[OF assms(1)] by blast
    show ?thesis
      using assms(1) b zs and_nonzero_changes[OF nz]
      by (simp add: onComponentDestroyed_def hasComponent_def invoke_def array_get_put andnot_and Let_def)
  qed
  show ?thesis using created destroyed by blast
qed

theorem component_mask_dispatch_witness:
  "(\<exists>u'. onComponentCreated 1 2 7 ex_flat = Some u' \<and> hasComponent u' 1 2 = Some True
              \<and> m_events u' = m_events ex_flat @ [ComponentAdded 1 2 7]
              \<and> (\<exists>u''. onComponentDestroyed 1 2 7 u' = Some u'' \<and> hasComponent u'' 1 2 = Some False
                    \<and> m_events u'' = m_events u' @ [ComponentDestroyed 1 2 7]))"
proof -
  have a: "array_get (m_entities ex_flat) 1 = Some (ex_entity (-1) 1)"
    by (simp add: ex_defs array_get_def)
  have b: "(0::int) \<le> 2" "2 < MAX_TYPES_COUNT" by (simp_all add: MAX_TYPES_COUNT_def)
  from component_mask_dispatch[OF a b, of 7]
  obtain u' where u': "onComponentCreated 1 2 7 ex_flat = Some u'" "hasComponent u' 1 2 = Some True"
     "m_events u' = m_events ex_flat @ [ComponentAdded 1 2 7]" by blast
  then obtain d' where a': "array_get (m_entities u') 1 = Some d'"
    by (auto simp: hasComponent_def split: bind_splits)
  from component_mask_dispatch[OF a' b, of 7] u'(2)
  have "\<exists>u''. onComponentDestroyed 1 2 7 u' = Some u'' \<and> hasComponent u'' 1 2 = Some False
                    \<and> m_events u'' = m_events u' @ [ComponentDestroyed 1 2 7]" by blast
  then show ?thesis using u' by blast
qed

text \<open>
  Claim C8. If the version read from the blob of the prefab is greater than \<open>PrefabVersion::LAST\<close>,
  \<open>instantiatePrefab\<close> returns \<open>INVALID_ENTITY\<close> and the state it leaves is the state it found
  with one line appended to the error log: no entity is created or modified.
\<close>

theorem instantiatePrefab_unsupported_version:
  assumes "read_u32 R blob = (version, d1)" and "PrefabVersion_LAST R < unat version"
  shows "instantiatePrefab fuel R M blob p r s u =
           Some (INVALID_ENTITY,
                 u\<lparr>m_log := m_log u @ [''Prefab '' @ prefab_path R @ '' has unsupported version.'']\<rparr>)"
  using assms by (simp add: instantiatePrefab_def logError_def)

theorem instantiatePrefab_unsupported_version_witness:
  "read_u32 ex_reader [9, 1, 0, 0] = (9, [1, 0, 0]) \<and> PrefabVersion_LAST ex_reader < unat (9 :: 32 word) \<and>
   instantiatePrefab 5 ex_reader spec_math [9, 1, 0, 0] (DVec3 5 0 0) (Quat 0 0 0 1) 1 ex_flat =
     Some (INVALID_ENTITY, ex_flat\<lparr>m_log := [''Prefab p.fab has unsupported version.'']\<rparr>)"
proof -
  have a: "read_u32 ex_reader [9, 1, 0, 0] = (9, [1, 0, 0])" by (simp add: ex_reader_def)
  have b: "PrefabVersion_LAST ex_reader < unat (9 :: 32 word)" by (simp add: ex_reader_def)
  have c: "m_log ex_flat = []" "prefab_path ex_reader = ''p.fab''" by (simp_all add: ex_flat_def ex_reader_def)
  show ?thesis
    using instantiatePrefab_unsupported_version[OF a b, of 5 spec_math "DVec3 5 0 0" "Quat 0 0 0 1" 1 ex_flat] a b c
    by simp
qed


section \<open>Lemmas about the hierarchy\<close>

subsection \<open>The hierarchy as a set of nodes\<close>

lemma node_of_Some_iff:
  "node_of u e = Some h \<longleftrightarrow>
     (\<exists>d. array_get (m_entities u) e = Some d \<and> 0 \<le> hierarchy d \<and>
          array_get (m_hierarchy u) (hierarchy d) = Some h)"
  by (auto simp: node_of_def split: option.splits)

lemma node_of_in_range: "node_of u e = Some h \<Longrightarrow> in_range u e"
  by (auto simp: node_of_Some_iff array_get_Some_iff in_range_def)

lemma node_of_entity: "index_ok u \<Longrightarrow> node_of u e = Some h \<Longrightarrow> entity h = e"
  by (auto simp: node_of_Some_iff array_get_Some_iff index_ok_def)

lemma node_of_None_iff:
  assumes "index_ok u" "in_range u e"
  shows "node_of u e = None \<longleftrightarrow> hierarchy (m_entities u ! nat e) < 0"
  using assms
  by (auto simp: node_of_def array_get_def in_range_def index_ok_def split: option.splits)

lemma getFirstChild_wf:
  assumes "index_ok u" "in_range u e"
  shows "getFirstChild u e =
           Some (first_child_of u e)"
  using assms
  by (auto simp: getFirstChild_def first_child_of_def node_of_def array_get_def in_range_def index_ok_def)

lemma getNextSibling_wf:
  assumes "index_ok u" "in_range u e"
  shows "getNextSibling u e =
           Some (next_sibling_of u e)"
  using assms
  by (auto simp: getNextSibling_def next_sibling_of_def node_of_def array_get_def in_range_def index_ok_def)

lemma getParent_wf:
  assumes "index_ok u" "in_range u e"
  shows "getParent u e =
           Some (parent_of u e)"
  using assms
  by (auto simp: getParent_def parent_of_def node_of_def array_get_def in_range_def index_ok_def)

lemma chain_mem: "chain D S x cs \<Longrightarrow> c \<in> set cs \<Longrightarrow> c \<in> D \<and> 0 \<le> c"
  by (induction cs arbitrary: x) auto

lemma chain_unique: "chain D S x cs \<Longrightarrow> chain D S x ds \<Longrightarrow> cs = ds"
proof (induction cs arbitrary: x ds)
  case Nil
  then show ?case by (cases ds) auto
next
  case (Cons a cs)
  then show ?case by (cases ds) auto
qed

lemma chain_append: "chain D S x (as @ b # bs) \<Longrightarrow> chain D S b (b # bs)"
  by (induction as arbitrary: x) auto

lemma chain_distinct: "chain D S x cs \<Longrightarrow> distinct cs"
proof (induction cs arbitrary: x)
  case Nil
  then show ?case by simp
next
  case (Cons a cs)
  then have h: "chain D S (S a) cs" by auto
  have "a \<notin> set cs"
  proof
    assume "a \<in> set cs"
    then obtain ys zs where cs: "cs = ys @ a # zs" by (auto simp: in_set_conv_decomp)
    then have "chain D S a (a # zs)" using h chain_append by blast
    then have "chain D S (S a) zs" by simp
    then have "zs = cs" using h chain_unique by blast
    then show False using cs by (metis length_append length_Cons not_add_less2 lessI)
  qed
  then show ?case using Cons.IH h by simp
qed

lemma chain_cong:
  "\<forall>a \<in> set cs. S' a = S a \<and> (a \<in> D' \<longleftrightarrow> a \<in> D) \<Longrightarrow> chain D' S' x cs = chain D S x cs"
  by (induction cs arbitrary: x) auto

lemma forest_nonneg: "forest D P F S \<Longrightarrow> e \<in> D \<Longrightarrow> 0 \<le> e"
  unfolding forest_def by blast

lemma forest_parent_ge: "forest D P F S \<Longrightarrow> e \<in> D \<Longrightarrow> - 1 \<le> P e"
  unfolding forest_def by blast

lemma forest_parent: "forest D P F S \<Longrightarrow> e \<in> D \<Longrightarrow> 0 \<le> P e \<Longrightarrow> P e \<in> D"
  unfolding forest_def by blast

lemma forest_root: "forest D P F S \<Longrightarrow> e \<in> D \<Longrightarrow> P e < 0 \<Longrightarrow> S e < 0"
  unfolding forest_def by blast

lemma forest_children:
  "forest D P F S \<Longrightarrow> e \<in> D \<Longrightarrow> \<exists>cs. chain D S (F e) cs \<and> set cs = {c \<in> D. P c = e}"
  unfolding forest_def by blast

lemma forest_acyclic: "forest D P F S \<Longrightarrow> acyclic (parent_rel D P)"
  unfolding forest_def by blast

lemma forestI:
  assumes "\<And>e. e \<in> D \<Longrightarrow> 0 \<le> e"
      and "\<And>e. e \<in> D \<Longrightarrow> - 1 \<le> P e"
      and "\<And>e. e \<in> D \<Longrightarrow> 0 \<le> P e \<Longrightarrow> P e \<in> D"
      and "\<And>e. e \<in> D \<Longrightarrow> P e < 0 \<Longrightarrow> S e < 0"
      and "\<And>e. e \<in> D \<Longrightarrow> \<exists>cs. chain D S (F e) cs \<and> set cs = {c \<in> D. P c = e}"
      and "acyclic (parent_rel D P)"
  shows "forest D P F S"
  unfolding forest_def using assms by blast

lemma node_of_dom: "e \<in> dom (node_of u) \<Longrightarrow> in_range u e"
  using node_of_in_range by blast

subsection \<open>The cycle guard terminates on a forest\<close>

lemma parent_rel_finite: "finite D \<Longrightarrow> finite (parent_rel D P)"
proof -
  assume fin: "finite D"
  have "parent_rel D P \<subseteq> (\<lambda>c. (P c, c)) ` D"
    by (auto simp: parent_rel_def image_iff)
  then show ?thesis using fin finite_surj by blast
qed

lemma node_of_dom_finite: "finite (dom (node_of u))"
proof -
  have "dom (node_of u) \<subseteq> {0..<int (length (m_entities u))}"
    using node_of_in_range by (auto simp: in_range_def)
  then show ?thesis using finite_subset by blast
qed

lemma wf_children: "wf_hierarchy u \<Longrightarrow> wf ((hierarchy_rel u)\<inverse>)"
proof -
  assume "wf_hierarchy u"
  then have "acyclic (hierarchy_rel u)" by (auto simp: wf_hierarchy_def dest: forest_acyclic)
  moreover have "finite (hierarchy_rel u)" by (simp add: parent_rel_finite node_of_dom_finite)
  ultimately show ?thesis by (rule finite_acyclic_wf_converse[rotated])
qed

lemma no_node_no_children:
  assumes "forest D P F S" "a \<notin> D"
  shows "(a, d) \<notin> (parent_rel D P)\<^sup>+"
proof
  assume "(a, d) \<in> (parent_rel D P)\<^sup>+"
  then obtain c where "(a, c) \<in> parent_rel D P" by (meson tranclD)
  then have "c \<in> D" "P c = a" "0 \<le> a" by (auto simp: parent_rel_def)
  then show False using forest_parent[OF assms(1), of c] assms(2) by auto
qed

lemma isDescendant_loop_total:
  assumes ok: "index_ok u"
      and ch: "chain (dom (node_of u)) (next_sibling_of u) x zs"
      and ih: "\<forall>c \<in> set zs. \<exists>n0. \<forall>n\<ge>n0. isDescendant n u c d = Some ((c, d) \<in> R)"
  shows "\<exists>m0. \<forall>m\<ge>m0. isDescendant_loop m u x d = Some (\<exists>c \<in> set zs. c = d \<or> (c, d) \<in> R)"
  using ch ih
proof (induction zs arbitrary: x)
  case Nil
  then have "\<forall>m\<ge>Suc 0. isDescendant_loop m u x d = Some False"
    by (auto simp: isValid_def Suc_le_eq gr0_conv_Suc)
  then show ?case by auto
next
  case (Cons a zs)
  then have h: "a \<in> dom (node_of u)" "x = a" "0 \<le> a"
      "chain (dom (node_of u)) (next_sibling_of u) (next_sibling_of u a) zs" by auto
  from Cons.IH[OF h(4)] Cons.prems(2) obtain m0 where
    m0: "\<forall>m\<ge>m0. isDescendant_loop m u (next_sibling_of u a) d = Some (\<exists>c \<in> set zs. c = d \<or> (c, d) \<in> R)"
    by auto
  from Cons.prems(2) obtain n0 where n0: "\<forall>n\<ge>n0. isDescendant n u a d = Some ((a, d) \<in> R)"
    by auto
  have ns: "getNextSibling u a = Some (next_sibling_of u a)"
    using getNextSibling_wf[OF ok node_of_dom[OF h(1)]] by simp
  have "isDescendant_loop m u x d = Some (\<exists>c \<in> set (a # zs). c = d \<or> (c, d) \<in> R)"
    if mm: "m \<ge> Suc (max n0 m0)" for m
  proof -
    obtain k where k: "m = Suc k" "n0 \<le> k" "m0 \<le> k"
      using mm by (cases m) simp_all
    have r: "isDescendant k u a d = Some ((a, d) \<in> R)" using n0 k(2) by blast
    have l: "isDescendant_loop k u (next_sibling_of u a) d = Some (\<exists>c \<in> set zs. c = d \<or> (c, d) \<in> R)"
      using m0 k(3) by blast
    show ?thesis unfolding k(1) h(2)
      using h(3) by (cases "a = d") (simp_all add: isValid_def r l ns)
  qed
  then show ?case by blast
qed

lemma isDescendant_total:
  assumes wf: "wf_hierarchy u"
  shows "in_range u a \<Longrightarrow>
         \<exists>n0. \<forall>n\<ge>n0. isDescendant n u a d = Some ((a, d) \<in> (hierarchy_rel u)\<^sup>+)"
proof (induction a rule: wf_induct_rule[OF wf_children[OF wf]])
  case (1 a)
  let ?D = "dom (node_of u)"
  let ?R = "(hierarchy_rel u)\<^sup>+"
  have ok: "index_ok u"
    and t: "forest ?D (parent_of u) (first_child_of u) (next_sibling_of u)"
    using wf by (simp_all add: wf_hierarchy_def)
  have fc: "getFirstChild u a = Some (first_child_of u a)"
    using getFirstChild_wf[OF ok 1(2)] by simp
  show ?case
  proof (cases "a \<in> ?D")
    case False
    then have fc0: "first_child_of u a = INVALID_ENTITY"
      by (auto simp: first_child_of_def split: option.splits)
    have "isDescendant n u a d = Some ((a, d) \<in> ?R)" if nn: "n \<ge> Suc (Suc 0)" for n
    proof -
      obtain k where "n = Suc (Suc k)" using nn by (metis Suc_le_D Suc_le_mono)
      then show ?thesis using fc fc0 no_node_no_children[OF t False, of d]
        by (simp add: INVALID_ENTITY_def isValid_def)
    qed
    then show ?thesis by blast
  next
    case True
    then obtain cs where cs: "chain ?D (next_sibling_of u) (first_child_of u a) cs"
        "set cs = {c \<in> ?D. parent_of u c = a}"
      using forest_children[OF t True] by blast
    have a0: "0 \<le> a" using 1(2) by (simp add: in_range_def)
    have ih: "\<forall>c \<in> set cs. \<exists>n0. \<forall>n\<ge>n0. isDescendant n u c d = Some ((c, d) \<in> ?R)"
    proof
      fix c assume "c \<in> set cs"
      then have hc: "c \<in> ?D" "parent_of u c = a" using cs(2) by auto
      then have "(c, a) \<in> (hierarchy_rel u)\<inverse>" using a0 by (auto simp: parent_rel_def)
      then show "\<exists>n0. \<forall>n\<ge>n0. isDescendant n u c d = Some ((c, d) \<in> ?R)"
        using 1(1) node_of_dom[OF hc(1)] by blast
    qed
    from isDescendant_loop_total[OF ok cs(1) ih] obtain m0 where
      m0: "\<forall>m\<ge>m0. isDescendant_loop m u (first_child_of u a) d = Some (\<exists>c \<in> set cs. c = d \<or> (c, d) \<in> ?R)"
      by blast
    have eq: "(\<exists>c \<in> set cs. c = d \<or> (c, d) \<in> ?R) \<longleftrightarrow> (a, d) \<in> ?R"
    proof
      assume "\<exists>c \<in> set cs. c = d \<or> (c, d) \<in> ?R"
      then obtain c where c: "c \<in> set cs" "c = d \<or> (c, d) \<in> ?R" by blast
      then have "(a, c) \<in> hierarchy_rel u" using cs(2) a0 by (auto simp: parent_rel_def)
      then show "(a, d) \<in> ?R" using c(2) by (metis r_into_trancl' trancl_into_trancl2)
    next
      assume "(a, d) \<in> ?R"
      then obtain c where c: "(a, c) \<in> hierarchy_rel u" "(c, d) \<in> (hierarchy_rel u)\<^sup>*"
        by (meson tranclD)
      then have "c \<in> set cs" using cs(2) by (auto simp: parent_rel_def)
      then show "\<exists>c \<in> set cs. c = d \<or> (c, d) \<in> ?R"
        using c(2) by (metis rtranclD)
    qed
    have "isDescendant n u a d = Some ((a, d) \<in> ?R)" if nn: "n \<ge> Suc m0" for n
    proof -
      obtain k where k: "n = Suc k" "m0 \<le> k" using nn by (cases n) simp_all
      have "isDescendant_loop k u (first_child_of u a) d = Some (\<exists>c \<in> set cs. c = d \<or> (c, d) \<in> ?R)"
        using m0 k(2) by blast
      then show ?thesis unfolding k(1) using fc eq by simp
    qed
    then show ?thesis by blast
  qed
qed

subsection \<open>Writing one node\<close>

lemma node_of_index:
  assumes "index_ok u" "node_of u e = Some h"
  shows "0 \<le> e" "nat e < length (m_entities u)"
        "0 \<le> hierarchy (m_entities u ! nat e)"
        "nat (hierarchy (m_entities u ! nat e)) < length (m_hierarchy u)"
        "m_hierarchy u ! nat (hierarchy (m_entities u ! nat e)) = h"
        "array_get (m_entities u) e = Some (m_entities u ! nat e)"
        "array_get (m_hierarchy u) (hierarchy (m_entities u ! nat e)) = Some h"
  using assms by (auto simp: node_of_Some_iff array_get_Some_iff)

lemma index_ok_inj:
  assumes ok: "index_ok u"
      and x: "0 \<le> x" "nat x < length (m_entities u)" "0 \<le> hierarchy (m_entities u ! nat x)"
      and y: "0 \<le> y" "nat y < length (m_entities u)"
      and eq: "hierarchy (m_entities u ! nat y) = hierarchy (m_entities u ! nat x)"
  shows "y = x"
proof -
  have "entity (m_hierarchy u ! nat (hierarchy (m_entities u ! nat x))) = int (nat x)"
    using ok x unfolding index_ok_def by blast
  moreover have "entity (m_hierarchy u ! nat (hierarchy (m_entities u ! nat y))) = int (nat y)"
    using ok y x(3) eq unfolding index_ok_def by metis
  ultimately show ?thesis using eq x(1) y(1) by simp
qed

lemma update_hierarchy_view:
  assumes ok: "index_ok u" and n: "node_of u e = Some h"
      and f: "entity (f h) = entity h"
  shows "update_hierarchy (hierarchy (m_entities u ! nat e)) f u =
           Some (u\<lparr>m_hierarchy := (m_hierarchy u)[nat (hierarchy (m_entities u ! nat e)) := f h]\<rparr>)"
    and "index_ok (u\<lparr>m_hierarchy := (m_hierarchy u)[nat (hierarchy (m_entities u ! nat e)) := f h]\<rparr>)"
    and "node_of (u\<lparr>m_hierarchy := (m_hierarchy u)[nat (hierarchy (m_entities u ! nat e)) := f h]\<rparr>)
           = (node_of u)(e \<mapsto> f h)"
proof -
  let ?i = "hierarchy (m_entities u ! nat e)"
  let ?u' = "u\<lparr>m_hierarchy := (m_hierarchy u)[nat ?i := f h]\<rparr>"
  note ix = node_of_index[OF ok n]
  show "update_hierarchy ?i f u = Some ?u'"
    using ix by (simp add: update_hierarchy_Some_iff)
  have same: "entity ((m_hierarchy u)[nat ?i := f h] ! k) = entity (m_hierarchy u ! k)"
    for k
    using f ix(4,5) by (cases "k = nat ?i") simp_all
  show ok': "index_ok ?u'"
    using ok unfolding index_ok_def by (simp add: same)
  show "node_of ?u' = (node_of u)(e \<mapsto> f h)"
  proof
    fix x
    show "node_of ?u' x = ((node_of u)(e \<mapsto> f h)) x"
    proof (cases "x = e")
      case True
      then show ?thesis using ix by (simp add: node_of_def array_get_def)
    next
      case False
      show ?thesis
      proof (cases "0 \<le> x \<and> nat x < length (m_entities u) \<and> 0 \<le> hierarchy (m_entities u ! nat x)")
        case True
        then have "hierarchy (m_entities u ! nat x) \<noteq> ?i"
          using index_ok_inj[OF ok ix(1,2,3), of x] False by auto
        then have "nat (hierarchy (m_entities u ! nat x)) \<noteq> nat ?i"
          using True ix(3) by auto
        then show ?thesis using False True
          by (simp add: node_of_def array_get_def)
      next
        case False
        then show ?thesis using \<open>x \<noteq> e\<close>
          by (auto simp: node_of_def array_get_def)
      qed
    qed
  qed
qed

lemma emplace_hierarchy_view:
  assumes ok: "index_ok u" and r: "in_range u e" and n: "node_of u e = None"
  shows "\<exists>u'. emplace_hierarchy e u = Some (int (length (m_hierarchy u)), u') \<and>
              index_ok u' \<and> node_of u' = (node_of u)(e \<mapsto> fresh_node u e) \<and>
              hierarchy (m_entities u' ! nat e) = int (length (m_hierarchy u)) \<and>
              length (m_entities u') = length (m_entities u) \<and> m_allocator u' = m_allocator u"
proof -
  let ?n = "int (length (m_hierarchy u))"
  let ?u' = "u\<lparr>m_entities := (m_entities u)[nat e := (m_entities u ! nat e)\<lparr>hierarchy := ?n\<rparr>],
               m_hierarchy := m_hierarchy u @ [fresh_node u e]\<rparr>"
  have e: "0 \<le> e" "nat e < length (m_entities u)" using r by (auto simp: in_range_def)
  have neg: "hierarchy (m_entities u ! nat e) < 0"
    using node_of_None_iff[OF ok r] n by simp
  have 1: "emplace_hierarchy e u = Some (?n, ?u')"
    using e by (simp add: emplace_hierarchy_def update_entity_def array_get_def array_put_def
                  fresh_node_def Let_def)
  have 2: "index_ok ?u'"
    unfolding index_ok_def
  proof (intro conjI allI impI)
    show "length (m_transforms ?u') = length (m_entities ?u')"
      using ok by (simp add: index_ok_def)
  next
    fix i assume i: "i < length (m_hierarchy ?u')"
    show "0 \<le> entity (m_hierarchy ?u' ! i)" "entity (m_hierarchy ?u' ! i) < int (length (m_entities ?u'))"
         "hierarchy (m_entities ?u' ! nat (entity (m_hierarchy ?u' ! i))) = int i"
    proof -
      consider "i < length (m_hierarchy u)" | "i = length (m_hierarchy u)" using i by force
      then have "0 \<le> entity (m_hierarchy ?u' ! i) \<and> entity (m_hierarchy ?u' ! i) < int (length (m_entities ?u'))
         \<and> hierarchy (m_entities ?u' ! nat (entity (m_hierarchy ?u' ! i))) = int i"
      proof cases
        case 1
        then have a: "0 \<le> entity (m_hierarchy u ! i)" "entity (m_hierarchy u ! i) < int (length (m_entities u))"
           "hierarchy (m_entities u ! nat (entity (m_hierarchy u ! i))) = int i"
          using ok unfolding index_ok_def by blast+
        then have "nat (entity (m_hierarchy u ! i)) \<noteq> nat e" using neg by auto
        then show ?thesis using 1 a by (simp add: nth_append)
      next
        case 2
        then show ?thesis using e by (simp add: nth_append fresh_node_def)
      qed
      then show "0 \<le> entity (m_hierarchy ?u' ! i)" "entity (m_hierarchy ?u' ! i) < int (length (m_entities ?u'))"
         "hierarchy (m_entities ?u' ! nat (entity (m_hierarchy ?u' ! i))) = int i" by blast+
    qed
  next
    fix x assume x: "x < length (m_entities ?u')"
    then have x': "x < length (m_entities u)" by simp
    have b: "hierarchy (m_entities u ! x) < int (length (m_hierarchy u))"
      "0 \<le> hierarchy (m_entities u ! x) \<longrightarrow> entity (m_hierarchy u ! nat (hierarchy (m_entities u ! x))) = int x"
      using ok x' unfolding index_ok_def by blast+
    show "hierarchy (m_entities ?u' ! x) < int (length (m_hierarchy ?u'))"
      using b(1) x' by (cases "x = nat e") (simp_all)
    assume "0 \<le> hierarchy (m_entities ?u' ! x)"
    then show "entity (m_hierarchy ?u' ! nat (hierarchy (m_entities ?u' ! x))) = int x"
      using b x' e by (cases "x = nat e") (auto simp: nth_append fresh_node_def)
  qed
  have 3: "node_of ?u' = (node_of u)(e \<mapsto> fresh_node u e)"
  proof
    fix x
    show "node_of ?u' x = ((node_of u)(e \<mapsto> fresh_node u e)) x"
    proof (cases "x = e")
      case True
      then show ?thesis using e by (simp add: node_of_def array_get_def)
    next
      case False
      have b: "hierarchy (m_entities u ! nat x) < int (length (m_hierarchy u))"
        if "0 \<le> x" "nat x < length (m_entities u)"
        using ok that unfolding index_ok_def by blast
      show ?thesis using False e b
        by (auto simp: node_of_def array_get_def nth_append nth_list_update)
    qed
  qed
  show ?thesis using 1 2 3 e by simp
qed

subsection \<open>Collecting a node\<close>

lemma collectGarbage_keep:
  assumes "index_ok u" "node_of u e = Some h" "0 \<le> parent h \<or> 0 \<le> first_child h"
  shows "collectGarbage e u = Some u"
  using node_of_index[OF assms(1,2)] assms(3)
  by (auto simp: collectGarbage_def isValid_def)

lemma index_ok_fwd:
  assumes "index_ok u" "k < length (m_hierarchy u)"
  shows "0 \<le> entity (m_hierarchy u ! k)" "entity (m_hierarchy u ! k) < int (length (m_entities u))"
        "nat (entity (m_hierarchy u ! k)) < length (m_entities u)"
        "hierarchy (m_entities u ! nat (entity (m_hierarchy u ! k))) = int k"
proof -
  have "0 \<le> entity (m_hierarchy u ! k) \<and> entity (m_hierarchy u ! k) < int (length (m_entities u)) \<and>
        hierarchy (m_entities u ! nat (entity (m_hierarchy u ! k))) = int k"
    using assms unfolding index_ok_def by blast
  then show "0 \<le> entity (m_hierarchy u ! k)" "entity (m_hierarchy u ! k) < int (length (m_entities u))"
        "nat (entity (m_hierarchy u ! k)) < length (m_entities u)"
        "hierarchy (m_entities u ! nat (entity (m_hierarchy u ! k))) = int k" by auto
qed

lemma index_ok_bwd:
  assumes "index_ok u" "x < length (m_entities u)"
  shows "hierarchy (m_entities u ! x) < int (length (m_hierarchy u))"
        "0 \<le> hierarchy (m_entities u ! x) \<Longrightarrow>
           entity (m_hierarchy u ! nat (hierarchy (m_entities u ! x))) = int x"
  using assms unfolding index_ok_def by blast+

lemma index_okI:
  assumes "length (m_transforms u) = length (m_entities u)"
      and "\<And>k. k < length (m_hierarchy u) \<Longrightarrow>
             0 \<le> entity (m_hierarchy u ! k) \<and> entity (m_hierarchy u ! k) < int (length (m_entities u)) \<and>
             hierarchy (m_entities u ! nat (entity (m_hierarchy u ! k))) = int k"
      and "\<And>x. x < length (m_entities u) \<Longrightarrow>
             hierarchy (m_entities u ! x) < int (length (m_hierarchy u)) \<and>
             (0 \<le> hierarchy (m_entities u ! x) \<longrightarrow>
                entity (m_hierarchy u ! nat (hierarchy (m_entities u ! x))) = int x)"
  shows "index_ok u"
  unfolding index_ok_def using assms by blast

lemma node_of_eq:
  assumes "0 \<le> y" "nat y < length (m_entities u)"
  shows "node_of u y = (if hierarchy (m_entities u ! nat y) < 0 then None
                        else array_get (m_hierarchy u) (hierarchy (m_entities u ! nat y)))"
  using assms by (auto simp: node_of_def array_get_def)

lemma node_of_out:
  assumes "\<not> (0 \<le> y \<and> nat y < length (m_entities u))"
  shows "node_of u y = None"
  using assms by (auto simp: node_of_def array_get_def)

lemma collectGarbage_remove:
  assumes ok: "index_ok u" and n: "node_of u e = Some h"
      and root: "parent h < 0" and leaf: "first_child h < 0"
  shows "\<exists>u'. collectGarbage e u = Some u' \<and> index_ok u' \<and> node_of u' = (node_of u)(e := None) \<and>
              length (m_entities u') = length (m_entities u) \<and> hierarchy_frame u u'"
proof -
  define ents where "ents = m_entities u"
  define hs where "hs = m_hierarchy u"
  define i where "i = hierarchy (ents ! nat e)"
  define L where "L = length hs - 1"
  define el where "el = entity (last hs)"
  note ix = node_of_index[OF ok n, folded ents_def hs_def, folded i_def]
  have eh: "entity h = e" using node_of_entity[OF ok n] .
  have ne: "hs \<noteq> []" using ix(4) by auto
  have Llt: "L < length hs" using ne by (simp add: L_def)
  have lst: "last hs = hs ! L" using ne by (simp add: last_conv_nth L_def)
  have el: "0 \<le> el" "nat el < length ents" "hierarchy (ents ! nat el) = int L" "el < int (length ents)"
    using index_ok_fwd[OF ok, of L] Llt lst by (simp_all add: el_def ents_def hs_def)
  define ents2 where "ents2 = (let ents1 = ents[nat el := (ents ! nat el)\<lparr>hierarchy := i\<rparr>]
                               in ents1[nat e := (ents1 ! nat e)\<lparr>hierarchy := -1\<rparr>])"
  define hs' where "hs' = butlast (hs[nat i := last hs])"
  define u' where "u' = u\<lparr>m_entities := ents2, m_hierarchy := hs'\<rparr>"
  have ixi: "e < int (length ents)" "i < int (length hs)"
    using ix by auto
  have cg: "collectGarbage e u = Some u'"
    using ix el ixi root leaf
    by (simp add: collectGarbage_def isValid_def Let_def update_entity_def update_hierarchy_def
          array_get_def array_put_def u'_def ents2_def hs'_def
          ents_def[symmetric] hs_def[symmetric] i_def[symmetric] el_def[symmetric])
  have len2: "length ents2 = length ents" by (simp add: ents2_def Let_def)
  have H: "hierarchy (ents2 ! x) =
             (if x = nat e then -1 else if x = nat el then i else hierarchy (ents ! x))"
    if "x < length ents" for x
    using that by (simp add: ents2_def Let_def nth_list_update)
  have N: "hs' ! k = (if k = nat i then last hs else hs ! k)" if "k < L" for k
    using that by (simp add: hs'_def L_def nth_butlast nth_list_update)
  have len: "length hs' = L" by (simp add: hs'_def L_def)
  have iL: "nat i < L" if "e \<noteq> el"
  proof -
    have "i \<noteq> int L"
      using index_ok_inj[OF ok, of e el] ix(1,2,3) el(1,2,3) that
      by (auto simp: ents_def i_def)
    then show ?thesis using ix(3,4) by (auto simp: L_def)
  qed
  have fwd: "0 \<le> entity (hs ! k) \<and> entity (hs ! k) < int (length ents) \<and>
             nat (entity (hs ! k)) < length ents \<and>
             hierarchy (ents ! nat (entity (hs ! k))) = int k" if "k < length hs" for k
    using index_ok_fwd[OF ok, of k] that by (simp add: ents_def hs_def)
  have bwd: "hierarchy (ents ! x) < int (length hs)"
            "0 \<le> hierarchy (ents ! x) \<Longrightarrow> entity (hs ! nat (hierarchy (ents ! x))) = int x"
    if "x < length ents" for x
    using index_ok_bwd[OF ok, of x] that by (simp_all add: ents_def hs_def)
  have other: "hierarchy (ents ! x) < int L \<and>
               (0 \<le> hierarchy (ents ! x) \<longrightarrow>
                  nat (hierarchy (ents ! x)) < L \<and> nat (hierarchy (ents ! x)) \<noteq> nat i)"
    if x: "x < length ents" "x \<noteq> nat e" "x \<noteq> nat el" for x
  proof -
    let ?k = "hierarchy (ents ! x)"
    have kL: "?k \<noteq> int L"
    proof
      assume "?k = int L"
      then have "entity (hs ! L) = int x" using bwd(2)[OF x(1)] by auto
      then show False using x(3) lst by (auto simp: el_def)
    qed
    have ki: "nat ?k \<noteq> nat i" if "0 \<le> ?k"
    proof
      assume "nat ?k = nat i"
      then have "?k = i" using ix(3) that by auto
      then have "int x = e" using bwd(2)[OF x(1) that] ix(5) eh by simp
      then show False using x(2) by auto
    qed
    show ?thesis using bwd(1)[OF x(1)] kL ki by (auto simp: L_def)
  qed
  have ok': "index_ok u'"
  proof (rule index_okI)
    show "length (m_transforms u') = length (m_entities u')"
      using ok by (simp add: index_ok_def u'_def len2 ents_def)
  next
    fix k assume "k < length (m_hierarchy u')"
    then have k: "k < L" by (simp add: u'_def len)
    have "0 \<le> entity (hs' ! k) \<and> entity (hs' ! k) < int (length ents2) \<and>
          hierarchy (ents2 ! nat (entity (hs' ! k))) = int k"
    proof (cases "k = nat i")
      case True
      then have "e \<noteq> el" using k el(3) ix(3) by (auto simp: i_def)
      then have "nat el \<noteq> nat e" using el(1) ix(1) by auto
      then show ?thesis using True k el ix(3) by (simp add: N H len2 el_def[symmetric])
    next
      case False
      define x where "x = entity (hs ! k)"
      have f: "0 \<le> x" "x < int (length ents)" "nat x < length ents" "hierarchy (ents ! nat x) = int k"
        using fwd[of k] k by (auto simp: x_def L_def)
      have "nat x \<noteq> nat e" using f(4) False by (auto simp: i_def)
      moreover have "nat x \<noteq> nat el" using f(4) el(3) k by auto
      ultimately show ?thesis using False k f by (simp add: N H len2 x_def[symmetric])
    qed
    then show "0 \<le> entity (m_hierarchy u' ! k) \<and>
         entity (m_hierarchy u' ! k) < int (length (m_entities u')) \<and>
         hierarchy (m_entities u' ! nat (entity (m_hierarchy u' ! k))) = int k"
      by (simp add: u'_def)
  next
    fix x assume "x < length (m_entities u')"
    then have x: "x < length ents" by (simp add: u'_def len2)
    have "hierarchy (ents2 ! x) < int (length hs') \<and>
         (0 \<le> hierarchy (ents2 ! x) \<longrightarrow> entity (hs' ! nat (hierarchy (ents2 ! x))) = int x)"
    proof (cases "x = nat e")
      case True
      then show ?thesis using x by (simp add: H)
    next
      case xe: False
      show ?thesis
      proof (cases "x = nat el")
        case True
        then have "e \<noteq> el" using xe by auto
        from iL[OF this] show ?thesis using True xe x el(1) ix(3)
          by (simp add: H N len el_def[symmetric])
      next
        case False
        from other[OF x xe False] bwd(2)[OF x] show ?thesis
          using xe False x by (simp add: H N len)
      qed
    qed
    then show "hierarchy (m_entities u' ! x) < int (length (m_hierarchy u')) \<and>
         (0 \<le> hierarchy (m_entities u' ! x) \<longrightarrow>
          entity (m_hierarchy u' ! nat (hierarchy (m_entities u' ! x))) = int x)"
      by (simp add: u'_def)
  qed
  have view: "node_of u' y = ((node_of u)(e := None)) y" for y
  proof (cases "0 \<le> y \<and> nat y < length ents")
    case False
    then have "node_of u' y = None" "node_of u y = None"
      using node_of_out[of y u'] node_of_out[of y u]
      by (simp_all add: u'_def len2 ents_def)
    then show ?thesis by simp
  next
    case True
    then have y: "0 \<le> y" "nat y < length ents" by auto
    have n': "node_of u' y = (if hierarchy (ents2 ! nat y) < 0 then None
                        else array_get hs' (hierarchy (ents2 ! nat y)))"
      using node_of_eq[of y u'] y by (simp add: u'_def len2)
    have n0: "node_of u y = (if hierarchy (ents ! nat y) < 0 then None
                        else array_get hs (hierarchy (ents ! nat y)))"
      using node_of_eq[of y u] y by (simp add: ents_def hs_def)
    show ?thesis
    proof (cases "y = e")
      case True
      then show ?thesis using y n' by (simp add: H)
    next
      case ye: False
      then have nye: "nat y \<noteq> nat e" using y(1) ix(1) by auto
      show ?thesis
      proof (cases "y = el")
        case True
        then have "e \<noteq> el" using ye by auto
        from iL[OF this] have "nat i < L" .
        then show ?thesis using True ye nye y el ix(3) lst Llt n' n0
          by (simp add: array_get_def H N len)
      next
        case False
        then have nyl: "nat y \<noteq> nat el" using y(1) el(1) by auto
        from other[OF y(2) nye nyl] bwd(1)[OF y(2)] show ?thesis using ye nye nyl y n' n0
          by (auto simp: array_get_def H N len)
      qed
    qed
  qed
  have fr: "hierarchy_frame u u'"
    using cg by (rule hierarchy_frame_collectGarbage)
  have "length (m_entities u') = length (m_entities u)" by (simp add: u'_def len2 ents_def)
  then show ?thesis using cg ok' view fr by auto
qed

subsection \<open>Forests under unlinking and linking\<close>

lemma chain_cong_D:
  "\<forall>a \<in> D. S' a = S a \<Longrightarrow> chain D S' x cs = chain D S x cs"
  by (induction cs arbitrary: x) auto

lemma chain_upd_notin [simp]:
  "a \<notin> set cs \<Longrightarrow> chain D (S(a := v)) x cs = chain D S x cs"
  by (induction cs arbitrary: x) auto

lemma chain_Nil_iff: "x < 0 \<Longrightarrow> chain D S x cs \<longleftrightarrow> cs = []"
  by (cases cs) auto

lemma chain_nonneg_Cons: "0 \<le> x \<Longrightarrow> chain D S x cs \<Longrightarrow> \<exists>zs. cs = x # zs \<and> chain D S (S x) zs"
  by (cases cs) auto

lemma forest_cong:
  assumes "\<forall>x \<in> D. P' x = P x \<and> F' x = F x \<and> S' x = S x"
  shows "forest D P' F' S' = forest D P F S"
proof -
  have r: "parent_rel D P' = parent_rel D P" using assms by (auto simp: parent_rel_def)
  have c: "chain D S' x cs = chain D S x cs" for x cs
    using chain_cong_D[of D S' S] assms by blast
  have s: "{c \<in> D. P' c = e} = {c \<in> D. P c = e}" for e using assms by auto
  show ?thesis unfolding forest_def r c s using assms by auto
qed

lemma forest_not_self_parent:
  assumes "forest D P F S" "c \<in> D" "0 \<le> P c"
  shows "P c \<noteq> c"
proof
  assume "P c = c"
  then have "(c, c) \<in> parent_rel D P" using assms by (auto simp: parent_rel_def)
  then show False using forest_acyclic[OF assms(1)] by (auto simp: acyclic_def)
qed

lemma forest_unlink_first:
  assumes t: "forest D P F S" and c: "c \<in> D" and p: "P c = p" "0 \<le> p" and f: "F p = c"
  shows "forest D (P(c := -1)) (F(p := S c)) (S(c := -1))"
proof (rule forestI)
  have pD: "p \<in> D" using forest_parent[OF t c] p by simp
  have cp: "c \<noteq> p" using forest_not_self_parent[OF t c] p by auto
  have c0: "0 \<le> c" using forest_nonneg[OF t c] .
  obtain cs where cs: "chain D S (F p) cs" "set cs = {x \<in> D. P x = p}"
    using forest_children[OF t pD] by blast
  then obtain zs where zs: "cs = c # zs" "chain D S (S c) zs"
    using chain_nonneg_Cons[OF c0, of D S cs] f by auto
  have cz: "c \<notin> set zs" using chain_distinct[OF cs(1)] zs(1) by simp
  fix e assume e: "e \<in> D"
  show "0 \<le> e" using forest_nonneg[OF t e] .
  show "- 1 \<le> (P(c := -1)) e" using forest_parent_ge[OF t e] by simp
  show "(P(c := -1)) e \<in> D" if "0 \<le> (P(c := -1)) e"
    using that forest_parent[OF t e] by (cases "e = c") auto
  show "(S(c := -1)) e < 0" if "(P(c := -1)) e < 0"
    using that forest_root[OF t e] by (cases "e = c") auto
  show "\<exists>cs. chain D (S(c := -1)) ((F(p := S c)) e) cs \<and> set cs = {x \<in> D. (P(c := -1)) x = e}"
  proof (cases "e = p")
    case True
    have "chain D (S(c := -1)) (S c) zs" using cz zs(2) by simp
    moreover have "set zs = {x \<in> D. (P(c := -1)) x = p}"
      using cs(2) zs(1) cz p by auto
    ultimately show ?thesis using True by auto
  next
    case False
    obtain es where es: "chain D S (F e) es" "set es = {x \<in> D. P x = e}"
      using forest_children[OF t e] by blast
    have "c \<notin> set es" using es(2) p False by auto
    then have "chain D (S(c := -1)) (F e) es" using es(1) by simp
    moreover have "set es = {x \<in> D. (P(c := -1)) x = e}"
      using es(2) p False forest_nonneg[OF t e] by auto
    ultimately show ?thesis using False by auto
  qed
next
  have "parent_rel D (P(c := -1)) \<subseteq> parent_rel D P" by (auto simp: parent_rel_def)
  then show "acyclic (parent_rel D (P(c := -1)))"
    using forest_acyclic[OF t] acyclic_subset by blast
qed

lemma chain_splice:
  assumes "chain D S x (as @ l # c # zs)" "distinct (as @ l # c # zs)"
  shows "chain D (S(l := S c, c := k)) x (as @ l # zs)"
  using assms
proof (induction as arbitrary: x)
  case Nil
  define S' where "S' = S(l := S c, c := k)"
  from Nil have f: "x = l" "0 \<le> l" "l \<in> D" "S l = c" "chain D S (S c) zs"
    and d: "l \<notin> set zs" "c \<notin> set zs" "l \<noteq> c" by auto
  have "chain D S' (S c) zs" unfolding S'_def using f(5) d by simp
  moreover have "S' l = S c" unfolding S'_def using d(3) by simp
  ultimately have "chain D S' x ([] @ l # zs)" using f by simp
  then show ?case unfolding S'_def .
next
  case (Cons a as)
  define S' where "S' = S(l := S c, c := k)"
  from Cons.prems have f: "x = a" "0 \<le> a" "a \<in> D" "chain D S (S a) (as @ l # c # zs)"
    and d: "a \<noteq> l" "a \<noteq> c" "distinct (as @ l # c # zs)" by auto
  have "chain D S' (S a) (as @ l # zs)" unfolding S'_def using Cons.IH[OF f(4) d(3)] .
  moreover have "S' a = S a" unfolding S'_def using d by simp
  ultimately have "chain D S' x ((a # as) @ l # zs)" using f by simp
  then show ?case unfolding S'_def .
qed

lemma forest_unlink_next:
  assumes t: "forest D P F S" and c: "c \<in> D" and p: "P c = p" "0 \<le> p"
      and l: "l \<in> D" "S l = c" "P l = p"
  shows "forest D (P(c := -1)) F (S(l := S c, c := -1))"
proof (rule forestI)
  let ?S = "S(l := S c, c := -1)"
  have pD: "p \<in> D" using forest_parent[OF t c] p by simp
  have c0: "0 \<le> c" using forest_nonneg[OF t c] .
  obtain cs where cs: "chain D S (F p) cs" "set cs = {x \<in> D. P x = p}"
    using forest_children[OF t pD] by blast
  have "l \<in> set cs" using cs(2) l by auto
  then obtain as bs where ab: "cs = as @ l # bs" by (auto simp: in_set_conv_decomp)
  then have "chain D S l (l # bs)" using cs(1) chain_append by blast
  then have "chain D S c bs" using l(2) by simp
  then obtain zs where zs: "bs = c # zs" using chain_nonneg_Cons[OF c0] by blast
  have dist: "distinct (as @ l # c # zs)" using chain_distinct[OF cs(1)] ab zs by simp
  then have lc: "l \<noteq> c" by auto
  fix e assume e: "e \<in> D"
  show "0 \<le> e" using forest_nonneg[OF t e] .
  show "- 1 \<le> (P(c := -1)) e" using forest_parent_ge[OF t e] by simp
  show "(P(c := -1)) e \<in> D" if "0 \<le> (P(c := -1)) e"
    using that forest_parent[OF t e] by (cases "e = c") auto
  show "?S e < 0" if "(P(c := -1)) e < 0"
    using that forest_root[OF t e] l(3) p(2) by (cases "e = c"; cases "e = l") auto
  show "\<exists>cs. chain D ?S (F e) cs \<and> set cs = {x \<in> D. (P(c := -1)) x = e}"
  proof (cases "e = p")
    case True
    have "chain D ?S (F p) (as @ l # zs)"
      using chain_splice[of D S "F p" as l c zs "-1"] cs(1) ab zs dist by simp
    moreover have "set (as @ l # zs) = {x \<in> D. (P(c := -1)) x = p}"
      using cs(2) ab zs dist p by auto
    ultimately show ?thesis using True by blast
  next
    case False
    obtain es where es: "chain D S (F e) es" "set es = {x \<in> D. P x = e}"
      using forest_children[OF t e] by blast
    have "c \<notin> set es" "l \<notin> set es" using es(2) p l False by auto
    then have "chain D ?S (F e) es" using es(1) by simp
    moreover have "set es = {x \<in> D. (P(c := -1)) x = e}"
      using es(2) p False forest_nonneg[OF t e] by auto
    ultimately show ?thesis by auto
  qed
next
  have "parent_rel D (P(c := -1)) \<subseteq> parent_rel D P" by (auto simp: parent_rel_def)
  then show "acyclic (parent_rel D (P(c := -1)))"
    using forest_acyclic[OF t] acyclic_subset by blast
qed

lemma forest_remove:
  assumes t: "forest D P F S" and e: "e \<in> D" and r: "P e < 0" and lf: "F e < 0"
  shows "forest (D - {e}) P F S"
proof (rule forestI)
  obtain cs where cs: "chain D S (F e) cs" "set cs = {x \<in> D. P x = e}"
    using forest_children[OF t e] by blast
  then have none: "{x \<in> D. P x = e} = {}" using chain_Nil_iff[OF lf] by auto
  fix x assume x: "x \<in> D - {e}"
  then have xD: "x \<in> D" by simp
  show "0 \<le> x" using forest_nonneg[OF t xD] .
  show "- 1 \<le> P x" using forest_parent_ge[OF t xD] .
  show "P x \<in> D - {e}" if "0 \<le> P x"
    using that forest_parent[OF t xD] none xD by auto
  show "S x < 0" if "P x < 0" using that forest_root[OF t xD] by simp
  obtain xs where xs: "chain D S (F x) xs" "set xs = {c \<in> D. P c = x}"
    using forest_children[OF t xD] by blast
  have "e \<notin> set xs" using xs(2) r forest_nonneg[OF t xD] by auto
  then have "chain (D - {e}) S (F x) xs"
    using chain_cong[of xs S S "D - {e}" D "F x"] xs(1) by auto
  moreover have "set xs = {c \<in> D - {e}. P c = x}"
    using xs(2) r forest_nonneg[OF t xD] by auto
  ultimately show "\<exists>cs. chain (D - {e}) S (F x) cs \<and> set cs = {c \<in> D - {e}. P c = x}"
    by blast
next
  have "parent_rel (D - {e}) P \<subseteq> parent_rel D P" by (auto simp: parent_rel_def)
  then show "acyclic (parent_rel (D - {e}) P)"
    using forest_acyclic[OF t] acyclic_subset by blast
qed

lemma forest_add:
  assumes t: "forest D P F S" and e: "e \<notin> D" "0 \<le> e"
  shows "forest (insert e D) (P(e := -1)) (F(e := -1)) (S(e := -1))"
proof (rule forestI)
  have nochild: "P x \<noteq> e" if "x \<in> D" for x
    using forest_parent[OF t that] e by (cases "0 \<le> P x") auto
  fix x assume x: "x \<in> insert e D"
  show "0 \<le> x" using x e forest_nonneg[OF t] by auto
  show "- 1 \<le> (P(e := -1)) x" using x forest_parent_ge[OF t, of x] by (cases "x = e") auto
  show "(P(e := -1)) x \<in> insert e D" if "0 \<le> (P(e := -1)) x"
    using that x forest_parent[OF t, of x] by (cases "x = e") auto
  show "(S(e := -1)) x < 0" if "(P(e := -1)) x < 0"
    using that x forest_root[OF t, of x] by (cases "x = e") auto
  show "\<exists>cs. chain (insert e D) (S(e := -1)) ((F(e := -1)) x) cs \<and>
             set cs = {c \<in> insert e D. (P(e := -1)) c = x}"
  proof (cases "x = e")
    case True
    have "{c \<in> insert e D. (P(e := -1)) c = e} = {}" using nochild e by auto
    then show ?thesis using True by (intro exI[of _ "[]"]) simp
  next
    case False
    then have xD: "x \<in> D" using x by simp
    obtain xs where xs: "chain D S (F x) xs" "set xs = {c \<in> D. P c = x}"
      using forest_children[OF t xD] by blast
    have "e \<notin> set xs" using xs(2) e by auto
    then have "chain (insert e D) (S(e := -1)) (F x) xs"
      using chain_cong[of xs "S(e := -1)" S "insert e D" D "F x"] xs(1) by auto
    moreover have "set xs = {c \<in> insert e D. (P(e := -1)) c = x}"
      using xs(2) e forest_nonneg[OF t xD] by auto
    ultimately show ?thesis using False by auto
  qed
next
  have "parent_rel (insert e D) (P(e := -1)) \<subseteq> parent_rel D P"
    using e by (auto simp: parent_rel_def split: if_splits)
  then show "acyclic (parent_rel (insert e D) (P(e := -1)))"
    using forest_acyclic[OF t] acyclic_subset by blast
qed

lemma forest_link:
  assumes t: "forest D P F S" and c: "c \<in> D" and n: "n \<in> D" and r: "P c < 0"
      and cn: "c \<noteq> n" and nd: "(c, n) \<notin> (parent_rel D P)\<^sup>+"
  shows "forest D (P(c := n)) (F(n := c)) (S(c := F n))"
proof (rule forestI)
  have n0: "0 \<le> n" using forest_nonneg[OF t n] .
  have c0: "0 \<le> c" using forest_nonneg[OF t c] .
  fix e assume e: "e \<in> D"
  have e0: "0 \<le> e" using forest_nonneg[OF t e] .
  show "0 \<le> e" using e0 .
  show "- 1 \<le> (P(c := n)) e" using forest_parent_ge[OF t e] n0 by simp
  show "(P(c := n)) e \<in> D" if "0 \<le> (P(c := n)) e"
    using that forest_parent[OF t e] n by (cases "e = c") auto
  show "(S(c := F n)) e < 0" if "(P(c := n)) e < 0"
    using that forest_root[OF t e] n0 by (cases "e = c") auto
  obtain es where es: "chain D S (F e) es" "set es = {x \<in> D. P x = e}"
    using forest_children[OF t e] by blast
  have ces: "c \<notin> set es" using es(2) r e0 by auto
  then have ch: "chain D (S(c := F n)) (F e) es" using es(1) by simp
  show "\<exists>cs. chain D (S(c := F n)) ((F(n := c)) e) cs \<and> set cs = {x \<in> D. (P(c := n)) x = e}"
  proof (cases "e = n")
    case True
    have "chain D (S(c := F n)) c (c # es)" using ch c c0 True by simp
    moreover have "set (c # es) = {x \<in> D. (P(c := n)) x = n}"
      using es(2) True c by auto
    ultimately show ?thesis using True by (intro exI[of _ "c # es"]) simp
  next
    case False
    have "set es = {x \<in> D. (P(c := n)) x = e}" using es(2) False r e0 by auto
    then show ?thesis using ch False by (intro exI[of _ es]) simp
  qed
next
  have eq: "parent_rel D (P(c := n)) = insert (n, c) (parent_rel D P)"
    using c r forest_nonneg[OF t n] by (auto simp: parent_rel_def)
  have "(c, n) \<notin> (parent_rel D P)\<^sup>*" using cn nd by (metis rtranclD)
  then show "acyclic (parent_rel D (P(c := n)))"
    unfolding eq using forest_acyclic[OF t] by simp
qed

subsection \<open>The unlink loop\<close>

lemma cols_upd:
  assumes "node_of u' = (node_of u)(e \<mapsto> h')"
  shows "dom (node_of u') = insert e (dom (node_of u))"
    and "parent_of u' = (parent_of u)(e := parent h')"
    and "first_child_of u' = (first_child_of u)(e := first_child h')"
    and "next_sibling_of u' = (next_sibling_of u)(e := next_sibling h')"
    and "local_of u' = (local_of u)(e \<mapsto> local_transform h')"
  using assms
  by (auto simp: parent_of_def first_child_of_def next_sibling_of_def local_of_def fun_eq_iff)

lemma cols_del:
  assumes "node_of u' = (node_of u)(e := None)"
  shows "dom (node_of u') = dom (node_of u) - {e}"
    and "parent_of u' = (parent_of u)(e := INVALID_ENTITY)"
    and "first_child_of u' = (first_child_of u)(e := INVALID_ENTITY)"
    and "next_sibling_of u' = (next_sibling_of u)(e := INVALID_ENTITY)"
    and "local_of u' = (local_of u)(e := None)"
proof -
  show "dom (node_of u') = dom (node_of u) - {e}" unfolding assms by simp
  show "parent_of u' = (parent_of u)(e := INVALID_ENTITY)"
    unfolding assms parent_of_def by (rule ext) simp
  show "first_child_of u' = (first_child_of u)(e := INVALID_ENTITY)"
    unfolding assms first_child_of_def by (rule ext) simp
  show "next_sibling_of u' = (next_sibling_of u)(e := INVALID_ENTITY)"
    unfolding assms next_sibling_of_def by (rule ext) simp
  show "local_of u' = (local_of u)(e := None)"
    unfolding assms local_of_def by (rule ext) simp
qed

lemma cols_node:
  assumes "node_of u e = Some h"
  shows "e \<in> dom (node_of u)" "parent_of u e = parent h" "first_child_of u e = first_child h"
        "next_sibling_of u e = next_sibling h" "local_of u e = Some (local_transform h)"
  using assms by (auto simp: parent_of_def first_child_of_def next_sibling_of_def local_of_def)

lemma update_hierarchy_step:
  assumes ok: "index_ok u" and n: "node_of u e = Some h" and f: "entity (f h) = entity h"
  shows "\<exists>u'. update_hierarchy (hierarchy (m_entities u ! nat e)) f u = Some u' \<and>
              index_ok u' \<and> node_of u' = (node_of u)(e \<mapsto> f h) \<and>
              m_entities u' = m_entities u \<and> m_transforms u' = m_transforms u \<and>
              m_allocator u' = m_allocator u"
  using update_hierarchy_view[where f = f, OF ok n f] by simp

lemma unlink_loop_total:
  assumes ok: "index_ok u"
  shows "node_of u q = Some hq \<Longrightarrow>
         x = field_ref fc (hierarchy (m_entities u ! nat q)) \<Longrightarrow>
         chain (dom (node_of u)) (next_sibling_of u) (get_field fc hq) (ys @ c # zs) \<Longrightarrow>
         c \<notin> set ys \<Longrightarrow>
         \<exists>u' l hl. (\<exists>n0. \<forall>n\<ge>n0. unlink_loop n c x u = Some u') \<and> index_ok u' \<and>
             m_entities u' = m_entities u \<and> m_transforms u' = m_transforms u \<and>
             m_allocator u' = m_allocator u \<and>
             node_of u l = Some hl \<and>
             ((ys = [] \<and> l = q \<and>
                 node_of u' = (node_of u)(l \<mapsto> set_field fc (next_sibling_of u c) hl)) \<or>
              (l \<in> set ys \<and> next_sibling hl = c \<and>
                 node_of u' = (node_of u)(l \<mapsto> hl\<lparr>next_sibling := next_sibling_of u c\<rparr>)))"
proof (induction ys arbitrary: q hq x fc)
  case Nil
  note ix = node_of_index[OF ok Nil(1)]
  let ?v = "get_field fc hq"
  have v: "?v = c" "0 \<le> c" "c \<in> dom (node_of u)" using Nil(3) by auto
  have rd: "read_field u x = Some c"
    using ix(7) Nil(2) v(1) by (auto simp: read_field_def field_ref_def get_field_def split: if_splits)
  have ns: "getNextSibling u c = Some (next_sibling_of u c)"
    using getNextSibling_wf[OF ok node_of_dom[OF v(3)]] .
  have fe: "entity (set_field fc (next_sibling_of u c) hq) = entity hq"
    by (simp add: set_field_def)
  from update_hierarchy_step[where f = "set_field fc (next_sibling_of u c)", OF ok Nil(1) fe]
  obtain u' where u': "update_hierarchy (hierarchy (m_entities u ! nat q))
        (set_field fc (next_sibling_of u c)) u = Some u'" "index_ok u'"
      "node_of u' = (node_of u)(q \<mapsto> set_field fc (next_sibling_of u c) hq)"
      "m_entities u' = m_entities u" "m_transforms u' = m_transforms u"
      "m_allocator u' = m_allocator u" by blast
  have wr: "write_field x (next_sibling_of u c) u = Some u'"
    using u'(1) Nil(2)
    by (auto simp: write_field_def set_field_def field_ref_def update_hierarchy_def split: if_splits)
  have "unlink_loop n c x u = Some u'" if nn: "n \<ge> Suc 0" for n
  proof -
    obtain k where k: "n = Suc k" using nn by (cases n) simp_all
    show ?thesis unfolding k using rd v(2) ns wr by (simp add: isValid_def)
  qed
  then have "\<exists>n0. \<forall>n\<ge>n0. unlink_loop n c x u = Some u'" by blast
  then show ?case using u' Nil(1) by blast
next
  case (Cons a ys)
  note ix = node_of_index[OF ok Cons(2)]
  let ?v = "get_field fc hq"
  have v: "?v = a" "0 \<le> a" "a \<in> dom (node_of u)"
       "chain (dom (node_of u)) (next_sibling_of u) (next_sibling_of u a) (ys @ c # zs)"
    using Cons(4) by auto
  have ac: "a \<noteq> c" "c \<notin> set ys" using Cons(5) by auto
  obtain ha where ha: "node_of u a = Some ha" using v(3) by auto
  note ia = node_of_index[OF ok ha]
  have nsa: "next_sibling_of u a = next_sibling ha" using ha by (simp add: next_sibling_of_def)
  have rd: "read_field u x = Some a"
    using ix(7) Cons(3) v(1) by (auto simp: read_field_def field_ref_def get_field_def split: if_splits)
  have ch': "chain (dom (node_of u)) (next_sibling_of u) (get_field False ha) (ys @ c # zs)"
    using v(4) nsa by (simp add: get_field_def)
  have xr: "NextSibling (hierarchy (m_entities u ! nat a)) = field_ref False (hierarchy (m_entities u ! nat a))"
    by (simp add: field_ref_def)
  from Cons.IH[OF ha xr ch' ac(2)]
  obtain u' l hl n0 where r:
      "\<forall>n\<ge>n0. unlink_loop n c (NextSibling (hierarchy (m_entities u ! nat a))) u = Some u'"
      "index_ok u'"
      "m_entities u' = m_entities u" "m_transforms u' = m_transforms u"
      "m_allocator u' = m_allocator u" "node_of u l = Some hl"
      "(ys = [] \<and> l = a \<and>
                 node_of u' = (node_of u)(l \<mapsto> set_field False (next_sibling_of u c) hl)) \<or>
              (l \<in> set ys \<and> next_sibling hl = c \<and>
                 node_of u' = (node_of u)(l \<mapsto> hl\<lparr>next_sibling := next_sibling_of u c\<rparr>))"
    by blast
  have step: "unlink_loop n c x u = Some u'" if nn: "n \<ge> Suc n0" for n
  proof -
    obtain k where k: "n = Suc k" "n0 \<le> k" using nn by (cases n) simp_all
    have "unlink_loop k c (NextSibling (hierarchy (m_entities u ! nat a))) u = Some u'"
      using r(1) k(2) by blast
    then show ?thesis
      unfolding k(1) using rd v(2) ac(1) ia(6,7) by (simp add: isValid_def)
  qed
  have "l \<in> set (a # ys) \<and> next_sibling hl = c \<and>
                 node_of u' = (node_of u)(l \<mapsto> hl\<lparr>next_sibling := next_sibling_of u c\<rparr>)"
  proof (cases "ys = [] \<and> l = a")
    case True
    then have "hl = ha" using r(6) ha by simp
    moreover have "next_sibling ha = c" using ch' True by (simp add: get_field_def)
    ultimately show ?thesis using r(7) True ac(2) by (auto simp: set_field_def)
  next
    case False
    then show ?thesis using r(7) by auto
  qed
  moreover have "\<exists>n0. \<forall>n\<ge>n0. unlink_loop n c x u = Some u'" using step by blast
  ultimately show ?case using r(2-6) by blast
qed

subsection \<open>Detaching a child\<close>

lemma parent_of_nonneg_dom: "0 \<le> parent_of u x \<Longrightarrow> x \<in> dom (node_of u)"
  by (auto simp: parent_of_def INVALID_ENTITY_def split: option.splits)

lemma hierarchy_rel_alt: "hierarchy_rel u = {(p, c). parent_of u c = p \<and> 0 \<le> p}"
  using parent_of_nonneg_dom by (auto simp: parent_rel_def)

lemma forest_of_upd:
  assumes "node_of u' = (node_of u)(e \<mapsto> h')" "e \<in> dom (node_of u)"
  shows "forest_of u' = forest (dom (node_of u)) ((parent_of u)(e := parent h'))
           ((first_child_of u)(e := first_child h')) ((next_sibling_of u)(e := next_sibling h'))"
  using cols_upd[OF assms(1)] assms(2) by (simp add: insert_absorb)

lemma collectGarbage_step:
  assumes ok: "index_ok u" and t: "forest_of u" and n: "node_of u e = Some h"
  shows "\<exists>u'. collectGarbage e u = Some u' \<and> index_ok u' \<and> forest_of u' \<and>
           hierarchy_frame u u' \<and> parent_of u' = parent_of u \<and>
           (\<forall>x. x \<noteq> e \<or> 0 \<le> parent_of u x \<or> 0 \<le> first_child_of u x \<longrightarrow>
                node_of u' x = node_of u x)"
proof (cases "0 \<le> parent h \<or> 0 \<le> first_child h")
  case True
  have "collectGarbage e u = Some u" using collectGarbage_keep[OF ok n True] .
  then show ?thesis using ok t by (simp add: hierarchy_frame_refl)
next
  case False
  then have r: "parent h < 0" "first_child h < 0" by auto
  from collectGarbage_remove[OF ok n r] obtain u' where
    u': "collectGarbage e u = Some u'" "index_ok u'" "node_of u' = (node_of u)(e := None)"
        "hierarchy_frame u u'" by blast
  note c = cols_del[OF u'(3)]
  note cn = cols_node[OF n]
  have f1: "forest (dom (node_of u) - {e}) (parent_of u) (first_child_of u) (next_sibling_of u)"
    using forest_remove[OF t cn(1)] cn r by simp
  have "forest_of u'"
    unfolding c using f1
    by (subst forest_cong[of _ _ "parent_of u" _ "first_child_of u" _ "next_sibling_of u"]) auto
  moreover have "parent_of u e = INVALID_ENTITY"
    using forest_parent_ge[OF t cn(1)] cn(2) r(1) by (simp add: INVALID_ENTITY_def)
  then have "parent_of u' = parent_of u" unfolding c by auto
  moreover have "\<forall>x. x \<noteq> e \<or> 0 \<le> parent_of u x \<or> 0 \<le> first_child_of u x \<longrightarrow>
                node_of u' x = node_of u x"
    using u'(3) cn r by auto
  ultimately show ?thesis using u' by blast
qed

lemma unlink_step:
  assumes ok: "index_ok u" and t: "forest_of u"
      and hc: "node_of u c = Some hc" and p: "parent hc = p" "0 \<le> p"
      and hp: "node_of u p = Some hp"
  shows "\<exists>u1 u2 u3.
           (\<exists>n0. \<forall>n\<ge>n0. unlink_loop n c (FirstChild (hierarchy (m_entities u ! nat p))) u = Some u1) \<and>
           update_hierarchy (hierarchy (m_entities u ! nat c)) (\<lambda>x. x\<lparr>parent := INVALID_ENTITY\<rparr>) u1 = Some u2 \<and>
           update_hierarchy (hierarchy (m_entities u ! nat c)) (\<lambda>x. x\<lparr>next_sibling := INVALID_ENTITY\<rparr>) u2 = Some u3 \<and>
           index_ok u3 \<and> forest_of u3 \<and> m_entities u3 = m_entities u \<and>
           dom (node_of u3) = dom (node_of u) \<and>
           parent_of u3 = (parent_of u)(c := INVALID_ENTITY) \<and>
           local_of u3 = local_of u \<and>
           first_child_of u3 c = first_child_of u c"
proof -
  let ?D = "dom (node_of u)" and ?P = "parent_of u" and ?F = "first_child_of u"
  let ?S = "next_sibling_of u"
  note cc = cols_node[OF hc] and cp = cols_node[OF hp]
  have cp_ne: "c \<noteq> p" using forest_not_self_parent[OF t cc(1)] cc(2) p by auto
  obtain cs where cs: "chain ?D ?S (?F p) cs" "set cs = {x \<in> ?D. ?P x = p}"
    using forest_children[OF t cp(1)] by blast
  have "c \<in> set cs" using cs(2) cc p by simp
  then obtain ys zs where yz: "cs = ys @ c # zs" "c \<notin> set ys"
    by (meson split_list_first)
  have ch: "chain ?D ?S (get_field True hp) (ys @ c # zs)"
    using cs(1) yz(1) cp(3) by (simp add: get_field_def)
  have xr: "FirstChild (hierarchy (m_entities u ! nat p)) = field_ref True (hierarchy (m_entities u ! nat p))"
    by (simp add: field_ref_def)
  from unlink_loop_total[OF ok hp xr ch yz(2)]
  obtain u1 l hl where
      lp: "\<exists>n0. \<forall>n\<ge>n0. unlink_loop n c (FirstChild (hierarchy (m_entities u ! nat p))) u = Some u1"
      and u1: "index_ok u1" "m_entities u1 = m_entities u" "node_of u l = Some hl"
      and dis: "(ys = [] \<and> l = p \<and>
                 node_of u1 = (node_of u)(l \<mapsto> set_field True (?S c) hl)) \<or>
              (l \<in> set ys \<and> next_sibling hl = c \<and>
                 node_of u1 = (node_of u)(l \<mapsto> hl\<lparr>next_sibling := ?S c\<rparr>))"
    by blast
  note cl = cols_node[OF u1(3)]
  define hl' where "hl' = (if ys = [] then hl\<lparr>first_child := ?S c\<rparr> else hl\<lparr>next_sibling := ?S c\<rparr>)"
  have lc: "l \<noteq> c" using dis yz(2) cp_ne by auto
  have v1: "node_of u1 = (node_of u)(l \<mapsto> hl')"
    using dis by (auto simp: hl'_def set_field_def)
  have hc1: "node_of u1 c = Some hc" using v1 lc hc by simp
  have e1: "entity (hc\<lparr>parent := INVALID_ENTITY\<rparr>) = entity hc" by simp
  from update_hierarchy_step[where f = "\<lambda>x. x\<lparr>parent := INVALID_ENTITY\<rparr>", OF u1(1) hc1 e1]
  obtain u2 where u2: "update_hierarchy (hierarchy (m_entities u1 ! nat c))
        (\<lambda>x. x\<lparr>parent := INVALID_ENTITY\<rparr>) u1 = Some u2" "index_ok u2"
      "node_of u2 = (node_of u1)(c \<mapsto> hc\<lparr>parent := INVALID_ENTITY\<rparr>)"
      "m_entities u2 = m_entities u1" by blast
  have hc2: "node_of u2 c = Some (hc\<lparr>parent := INVALID_ENTITY\<rparr>)" using u2(3) by simp
  from update_hierarchy_step[where f = "\<lambda>x. x\<lparr>next_sibling := INVALID_ENTITY\<rparr>", OF u2(2) hc2]
  obtain u3 where u3: "update_hierarchy (hierarchy (m_entities u2 ! nat c))
        (\<lambda>x. x\<lparr>next_sibling := INVALID_ENTITY\<rparr>) u2 = Some u3" "index_ok u3"
      "node_of u3 = (node_of u2)(c \<mapsto> hc\<lparr>parent := INVALID_ENTITY, next_sibling := INVALID_ENTITY\<rparr>)"
      "m_entities u3 = m_entities u2" by auto
  define hc' where "hc' = hc\<lparr>parent := INVALID_ENTITY, next_sibling := INVALID_ENTITY\<rparr>"
  have v3': "node_of u3 = (node_of u1)(c \<mapsto> hc')"
    using u3(3) u2(3) by (simp add: hc'_def)
  note k1 = cols_upd[OF v1] and k3 = cols_upd[OF v3']
  have D3: "dom (node_of u3) = ?D" unfolding k3 k1 using cl(1) cc(1) by auto
  have P3: "parent_of u3 = ?P(c := INVALID_ENTITY)"
    unfolding k3 k1 using cl(2) by (auto simp: hc'_def hl'_def fun_eq_iff)
  have F3: "first_child_of u3 = (if ys = [] then ?F(p := ?S c) else ?F)"
    unfolding k3 k1 using cl(3) cc(3) dis lc by (auto simp: hc'_def hl'_def fun_eq_iff)
  have S3: "next_sibling_of u3 = (if ys = [] then ?S(c := -1) else ?S(l := ?S c, c := -1))"
    unfolding k3 k1 using cl(4) by (auto simp: hc'_def hl'_def fun_eq_iff INVALID_ENTITY_def)
  have L3: "local_of u3 = local_of u"
    unfolding k3 k1 using cl(5) cc(5) by (auto simp: hc'_def hl'_def fun_eq_iff)
  have t3: "forest_of u3"
  proof (cases "ys = []")
    case True
    then have "?F p = c" using cs(1) yz(1) by simp
    from forest_unlink_first[OF t cc(1) _ p(2) this] cc(2) p(1)
    show ?thesis unfolding D3 P3 F3 S3 using True by (simp add: INVALID_ENTITY_def)
  next
    case False
    then have l: "l \<in> set ys" "next_sibling hl = c" using dis by auto
    then have "l \<in> set cs" using yz(1) by simp
    then have lp: "l \<in> ?D" "?P l = p" using cs(2) by auto
    have "?S l = c" using l(2) cl(4) by simp
    from forest_unlink_next[OF t cc(1) _ p(2) lp(1) this lp(2)] cc(2) p(1)
    show ?thesis unfolding D3 P3 F3 S3 using False by (simp add: INVALID_ENTITY_def)
  qed
  have Fc: "first_child_of u3 c = ?F c" unfolding F3 using cp_ne by simp
  have e3: "m_entities u3 = m_entities u" using u1(2) u2(4) u3(4) by simp
  have s2: "update_hierarchy (hierarchy (m_entities u ! nat c)) (\<lambda>x. x\<lparr>parent := INVALID_ENTITY\<rparr>) u1 = Some u2"
    using u2(1) u1(2) by simp
  have s3: "update_hierarchy (hierarchy (m_entities u ! nat c)) (\<lambda>x. x\<lparr>next_sibling := INVALID_ENTITY\<rparr>) u2 = Some u3"
    using u3(1) u2(4) u1(2) by simp
  show ?thesis
    using lp s2 s3 u3(2) t3 e3 D3 P3 L3 Fc by blast
qed

lemma hierarchy_frame_length:
  "hierarchy_frame u u' \<Longrightarrow> length (m_entities u') = length (m_entities u)"
  unfolding hierarchy_frame_def by (metis length_map)

lemma detach_effect:
  assumes ok: "index_ok u" and t: "forest_of u" and r: "in_range u c"
  shows "\<exists>i u'. (\<exists>n0. \<forall>n\<ge>n0. setParent_detach n np c u = Some (i, u')) \<and>
           index_ok u' \<and> forest_of u' \<and> hierarchy_frame u u' \<and>
           i = hierarchy (m_entities u' ! nat c) \<and>
           parent_of u' = (parent_of u)(c := INVALID_ENTITY) \<and>
           (\<forall>x. x \<noteq> c \<and> 0 \<le> parent_of u x \<longrightarrow> local_of u' x = local_of u x) \<and>
           (0 \<le> np \<longrightarrow> c \<in> dom (node_of u'))"
proof (cases "node_of u c")
  case None
  have c: "0 \<le> c" "nat c < length (m_entities u)" "c < int (length (m_entities u))"
    using r by (auto simp: in_range_def)
  have neg: "hierarchy (m_entities u ! nat c) < 0" using node_of_None_iff[OF ok r] None by simp
  have pc: "parent_of u c = INVALID_ENTITY" using None by (simp add: parent_of_def)
  show ?thesis
  proof (cases "0 \<le> np")
    case True
    from emplace_hierarchy_view[OF ok r None] obtain u' where
      u': "emplace_hierarchy c u = Some (int (length (m_hierarchy u)), u')" "index_ok u'"
          "node_of u' = (node_of u)(c \<mapsto> fresh_node u c)"
          "hierarchy (m_entities u' ! nat c) = int (length (m_hierarchy u))" by blast
    have d: "setParent_detach n np c u = Some (int (length (m_hierarchy u)), u')" for n
      using c neg True u'(1) by (simp add: setParent_detach_def array_get_def isValid_def)
    note k = cols_upd[OF u'(3)]
    have cD: "c \<notin> dom (node_of u)" using None by auto
    have "forest_of u'"
      unfolding k using forest_add[OF t cD c(1)] by (simp add: fresh_node_def INVALID_ENTITY_def)
    moreover have "parent_of u' = (parent_of u)(c := INVALID_ENTITY)"
      unfolding k by (simp add: fresh_node_def)
    moreover have "\<forall>x. x \<noteq> c \<and> 0 \<le> parent_of u x \<longrightarrow> local_of u' x = local_of u x"
      unfolding k by simp
    moreover have "c \<in> dom (node_of u')" unfolding k by simp
    moreover have "hierarchy_frame u u'" using hierarchy_frame_setParent_detach[OF d] .
    moreover have "\<exists>n0. \<forall>n\<ge>n0. setParent_detach n np c u = Some (int (length (m_hierarchy u)), u')"
      using d by blast
    moreover have "int (length (m_hierarchy u)) = hierarchy (m_entities u' ! nat c)"
      using u'(4) by simp
    ultimately show ?thesis using u'(2) by blast
  next
    case False
    have d: "setParent_detach n np c u = Some (hierarchy (m_entities u ! nat c), u)" for n
      using c neg False by (simp add: setParent_detach_def array_get_def isValid_def)
    have "parent_of u = (parent_of u)(c := INVALID_ENTITY)" using pc by auto
    moreover have "\<exists>n0. \<forall>n\<ge>n0. setParent_detach n np c u = Some (hierarchy (m_entities u ! nat c), u)"
      using d by blast
    ultimately show ?thesis using ok t False hierarchy_frame_refl[of u] by blast
  qed
next
  case (Some hc)
  note ix = node_of_index[OF ok Some] and cc = cols_node[OF Some]
  show ?thesis
  proof (cases "0 \<le> parent hc")
    case False
    have d: "setParent_detach n np c u = Some (hierarchy (m_entities u ! nat c), u)" for n
      using ix False by (simp add: setParent_detach_def isValid_def)
    have "parent_of u c = INVALID_ENTITY"
      using forest_parent_ge[OF t cc(1)] cc(2) False by (simp add: INVALID_ENTITY_def)
    then have "parent_of u = (parent_of u)(c := INVALID_ENTITY)" by auto
    moreover have "\<exists>n0. \<forall>n\<ge>n0. setParent_detach n np c u = Some (hierarchy (m_entities u ! nat c), u)"
      using d by blast
    ultimately show ?thesis using ok t cc(1) hierarchy_frame_refl[of u] by blast
  next
    case True
    define p where "p = parent hc"
    have p: "parent hc = p" "0 \<le> p" using True by (simp_all add: p_def)
    have pD: "p \<in> dom (node_of u)" using forest_parent[OF t cc(1)] cc(2) p by simp
    then obtain hp where hp: "node_of u p = Some hp" by auto
    note ip = node_of_index[OF ok hp]
    have cp_ne: "c \<noteq> p" using forest_not_self_parent[OF t cc(1)] cc(2) p by auto
    from unlink_step[OF ok t Some p hp] obtain u1 u2 u3 n0 where
        s: "\<forall>n\<ge>n0. unlink_loop n c (FirstChild (hierarchy (m_entities u ! nat p))) u = Some u1"
        "update_hierarchy (hierarchy (m_entities u ! nat c)) (\<lambda>x. x\<lparr>parent := INVALID_ENTITY\<rparr>) u1 = Some u2"
        "update_hierarchy (hierarchy (m_entities u ! nat c)) (\<lambda>x. x\<lparr>next_sibling := INVALID_ENTITY\<rparr>) u2 = Some u3"
        and f3: "index_ok u3" "forest_of u3" "m_entities u3 = m_entities u"
           "dom (node_of u3) = dom (node_of u)"
           "parent_of u3 = (parent_of u)(c := INVALID_ENTITY)"
           "local_of u3 = local_of u" by blast
    obtain hp3 where hp3: "node_of u3 p = Some hp3" using pD f3(4) by auto
    from collectGarbage_step[OF f3(1,2) hp3] obtain u4 where u4:
      "collectGarbage p u3 = Some u4" "index_ok u4" "forest_of u4"
      "parent_of u4 = parent_of u3"
      "\<forall>x. x \<noteq> p \<or> 0 \<le> parent_of u3 x \<or> 0 \<le> first_child_of u3 x \<longrightarrow>
              node_of u4 x = node_of u3 x" by blast
    have c4: "node_of u4 c = node_of u3 c" using u4(5) cp_ne by blast
    have "c \<in> dom (node_of u3)" using f3(4) cc(1) by simp
    then have cD4: "c \<in> dom (node_of u4)" using c4 by (simp add: dom_def)
    then obtain hc4 where hc4: "node_of u4 c = Some hc4" by auto
    note i4 = node_of_index[OF u4(2) hc4]
    have d: "setParent_detach n np c u = Some (hierarchy (m_entities u4 ! nat c), u4)"
      if nn: "n \<ge> n0" for n
    proof -
      have "unlink_loop n c (FirstChild (hierarchy (m_entities u ! nat p))) u = Some u1"
        using s(1) nn by blast
      then show ?thesis
        using ix(3,6,7) p ip(6,7) s(2,3) u4(1) i4(6)
        by (simp add: setParent_detach_def isValid_def)
    qed
    have loc: "local_of u4 x = local_of u x" if x: "x \<noteq> c" "0 \<le> parent_of u x" for x
    proof -
      have "0 \<le> parent_of u3 x" using x f3(5) by simp
      then have "node_of u4 x = node_of u3 x" using u4(5) by blast
      then have "local_of u4 x = local_of u3 x" by (simp add: local_of_def)
      then show ?thesis using f3(6) by simp
    qed
    have "hierarchy_frame u u4" using hierarchy_frame_setParent_detach[OF d[of n0]] by simp
    moreover have "\<exists>n0. \<forall>n\<ge>n0. setParent_detach n np c u = Some (hierarchy (m_entities u4 ! nat c), u4)"
      using d by blast
    moreover have "parent_of u4 = (parent_of u)(c := INVALID_ENTITY)" using u4(4) f3(5) by simp
    moreover have "\<forall>x. x \<noteq> c \<and> 0 \<le> parent_of u x \<longrightarrow> local_of u4 x = local_of u x"
      using loc by blast
    ultimately show ?thesis using u4(2,3) cD4 by blast
  qed
qed

subsection \<open>Attaching a child\<close>

lemma index_ok_transform:
  assumes "index_ok u" "in_range u e"
  shows "\<exists>t. getTransform u e = Some t"
  using assms by (auto simp: index_ok_def in_range_def getTransform_def array_get_def)

lemma node_of_Some_if:
  assumes "index_ok u" "in_range u e" "0 \<le> hierarchy (m_entities u ! nat e)"
  shows "\<exists>h. node_of u e = Some h"
  using node_of_None_iff[OF assms(1,2)] assms(3) by (cases "node_of u e") auto

lemma ensure_parent_node:
  assumes ok: "index_ok u" and t: "forest_of u" and r: "in_range u n"
  shows "\<exists>j u1. (if hierarchy (m_entities u ! nat n) < 0 then emplace_hierarchy n u
                  else Some (hierarchy (m_entities u ! nat n), u)) = Some (j, u1) \<and>
           j = hierarchy (m_entities u1 ! nat n) \<and>
           index_ok u1 \<and> forest_of u1 \<and> n \<in> dom (node_of u1) \<and>
           parent_of u1 = parent_of u \<and>
           m_transforms u1 = m_transforms u \<and>
           (\<forall>x. x \<noteq> n \<longrightarrow> node_of u1 x = node_of u x \<and>
                 (0 \<le> x \<longrightarrow> m_entities u1 ! nat x = m_entities u ! nat x)) \<and>
           (n \<in> dom (node_of u) \<longrightarrow> node_of u1 n = node_of u n) \<and>
           length (m_entities u1) = length (m_entities u)"
proof (cases "node_of u n")
  case None
  have n: "0 \<le> n" using r by (simp add: in_range_def)
  have neg: "hierarchy (m_entities u ! nat n) < 0" using node_of_None_iff[OF ok r] None by simp
  from emplace_hierarchy_view[OF ok r None] obtain u1 where
    u1: "emplace_hierarchy n u = Some (int (length (m_hierarchy u)), u1)" "index_ok u1"
        "node_of u1 = (node_of u)(n \<mapsto> fresh_node u n)"
        "hierarchy (m_entities u1 ! nat n) = int (length (m_hierarchy u))"
        "length (m_entities u1) = length (m_entities u)" by blast
  note k = cols_upd[OF u1(3)]
  have nD: "n \<notin> dom (node_of u)" using None by auto
  have f: "forest_of u1"
    unfolding k using forest_add[OF t nD n] by (simp add: fresh_node_def INVALID_ENTITY_def)
  have P: "parent_of u1 = parent_of u"
    unfolding k using None by (auto simp: fresh_node_def parent_of_def)
  have tr: "m_transforms u1 = m_transforms u"
    using emplace_hierarchy_others(1)[OF u1(1)] .
  have ents: "m_entities u1 ! nat x = m_entities u ! nat x" if "x \<noteq> n" "0 \<le> x" for x
  proof -
    have "m_entities u1 = (m_entities u)[nat n := (m_entities u ! nat n)\<lparr>hierarchy := int (length (m_hierarchy u))\<rparr>]"
      using u1(1) by (auto simp: emplace_hierarchy_def Let_def update_entity_Some_iff split: bind_splits)
    moreover have "nat x \<noteq> nat n" using that n by auto
    ultimately show ?thesis by simp
  qed
  show ?thesis
    using neg u1 f P tr ents nD by (auto simp: k)
next
  case (Some hn)
  note ix = node_of_index[OF ok Some]
  show ?thesis using ix(3) ok t Some by auto
qed

lemma attach_effect:
  assumes ok: "index_ok u" and t: "forest_of u" and r: "in_range u c"
      and i: "i = hierarchy (m_entities u ! nat c)"
      and root: "parent_of u c = INVALID_ENTITY"
      and np: "0 \<le> np \<Longrightarrow> in_range u np \<and> c \<in> dom (node_of u) \<and> np \<noteq> c \<and>
                  (c, np) \<notin> (hierarchy_rel u)\<^sup>+"
  shows "\<exists>u'. setParent_attach M np c i u = Some u' \<and> index_ok u' \<and> forest_of u' \<and>
           hierarchy_frame u u' \<and>
           parent_of u' = (parent_of u)(c := (if 0 \<le> np then np else INVALID_ENTITY)) \<and>
           (\<forall>x. x \<noteq> c \<and> 0 \<le> parent_of u x \<longrightarrow> local_of u' x = local_of u x) \<and>
           (0 \<le> np \<longrightarrow> (\<exists>tp tc. getTransform u np = Some tp \<and> getTransform u c = Some tc \<and>
               local_of u' c = Some (mul M (inverted M tp) tc)))"
proof (cases "0 \<le> np")
  case False
  have P: "parent_of u = (parent_of u)(c := INVALID_ENTITY)" using root by auto
  show ?thesis
  proof (cases "0 \<le> i")
    case True
    then obtain hc where hc: "node_of u c = Some hc" using node_of_Some_if[OF ok r] i by auto
    from collectGarbage_step[OF ok t hc] obtain u' where u':
      "collectGarbage c u = Some u'" "index_ok u'" "forest_of u'" "hierarchy_frame u u'"
      "parent_of u' = parent_of u"
      "\<forall>x. x \<noteq> c \<or> 0 \<le> parent_of u x \<or> 0 \<le> first_child_of u x \<longrightarrow> node_of u' x = node_of u x"
      by blast
    have a: "setParent_attach M np c i u = Some u'"
      using False True u'(1) by (simp add: setParent_attach_def isValid_def)
    have "local_of u' x = local_of u x" if "x \<noteq> c" for x
    proof -
      have "node_of u' x = node_of u x" using u'(6) that by blast
      then show ?thesis by (simp add: local_of_def)
    qed
    then show ?thesis using a u'(2,3,4,5) P False by auto
  next
    case ni: False
    have a: "setParent_attach M np c i u = Some u"
      using False ni by (simp add: setParent_attach_def isValid_def)
    show ?thesis using a ok t P False by (auto simp: hierarchy_frame_refl)
  qed
next
  case True
  from np[OF True] have rn: "in_range u np" and cD: "c \<in> dom (node_of u)" and ne: "np \<noteq> c"
    and nd: "(c, np) \<notin> (hierarchy_rel u)\<^sup>+" by auto
  obtain hc where hc: "node_of u c = Some hc" using cD by auto
  have n0: "0 \<le> np" "np < int (length (m_entities u))" using rn by (auto simp: in_range_def)
  from ensure_parent_node[OF ok t rn] obtain j u1 where
    s1: "(if hierarchy (m_entities u ! nat np) < 0 then emplace_hierarchy np u
                  else Some (hierarchy (m_entities u ! nat np), u)) = Some (j, u1)"
    and j: "j = hierarchy (m_entities u1 ! nat np)"
    and f1: "index_ok u1" "forest_of u1" "np \<in> dom (node_of u1)" "parent_of u1 = parent_of u"
        "m_transforms u1 = m_transforms u"
    and o1: "\<forall>x. x \<noteq> np \<longrightarrow> node_of u1 x = node_of u x \<and>
                 (0 \<le> x \<longrightarrow> m_entities u1 ! nat x = m_entities u ! nat x)"
    and k1: "np \<in> dom (node_of u) \<longrightarrow> node_of u1 np = node_of u np"
    and l1: "length (m_entities u1) = length (m_entities u)"
    by blast
  obtain hn where hn: "node_of u1 np = Some hn" using f1(3) by auto
  have hc1: "node_of u1 c = Some hc" using o1 ne hc by auto
  have c0: "0 \<le> c" using r by (simp add: in_range_def)
  have i1: "i = hierarchy (m_entities u1 ! nat c)" using o1 ne i c0 by auto
  obtain tp where tp: "getTransform u np = Some tp" using index_ok_transform[OF ok rn] by blast
  obtain tc where tc: "getTransform u c = Some tc" using index_ok_transform[OF ok r] by blast
  define X where "X = mul M (inverted M tp) tc"
  have e2: "entity (hc\<lparr>parent := np\<rparr>) = entity hc" by simp
  from update_hierarchy_step[where f = "\<lambda>x. x\<lparr>parent := np\<rparr>", OF f1(1) hc1 e2]
  obtain u2 where u2: "update_hierarchy i (\<lambda>x. x\<lparr>parent := np\<rparr>) u1 = Some u2" "index_ok u2"
      "node_of u2 = (node_of u1)(c \<mapsto> hc\<lparr>parent := np\<rparr>)"
      "m_entities u2 = m_entities u1" "m_transforms u2 = m_transforms u1"
    unfolding i1 by blast
  have hc2: "node_of u2 c = Some (hc\<lparr>parent := np\<rparr>)" using u2(3) by simp
  have i2: "i = hierarchy (m_entities u2 ! nat c)" using i1 u2(4) by simp
  from update_hierarchy_step[where f = "\<lambda>x. x\<lparr>local_transform := X\<rparr>", OF u2(2) hc2]
  obtain u3 where u3: "update_hierarchy i (\<lambda>x. x\<lparr>local_transform := X\<rparr>) u2 = Some u3" "index_ok u3"
      "node_of u3 = (node_of u2)(c \<mapsto> hc\<lparr>parent := np, local_transform := X\<rparr>)"
      "m_entities u3 = m_entities u2" "m_transforms u3 = m_transforms u2"
    unfolding i2 by auto
  have hc3: "node_of u3 c = Some (hc\<lparr>parent := np, local_transform := X\<rparr>)" using u3(3) by simp
  have hn3: "node_of u3 np = Some hn" using u3(3) u2(3) hn ne by simp
  have i3: "i = hierarchy (m_entities u3 ! nat c)" using i2 u3(4) by simp
  have j3: "j = hierarchy (m_entities u3 ! nat np)" using j u2(4) u3(4) by simp
  have rd: "array_get (m_hierarchy u3) j = Some hn"
    using node_of_index(7)[OF u3(2) hn3] j3 by simp
  from update_hierarchy_step[where f = "\<lambda>x. x\<lparr>next_sibling := first_child hn\<rparr>", OF u3(2) hc3]
  obtain u4 where u4: "update_hierarchy i (\<lambda>x. x\<lparr>next_sibling := first_child hn\<rparr>) u3 = Some u4"
      "index_ok u4"
      "node_of u4 = (node_of u3)(c \<mapsto> hc\<lparr>parent := np, local_transform := X,
                                          next_sibling := first_child hn\<rparr>)"
      "m_entities u4 = m_entities u3" "m_transforms u4 = m_transforms u3"
    unfolding i3 by auto
  have hn4: "node_of u4 np = Some hn" using u4(3) hn3 ne by simp
  have j4: "j = hierarchy (m_entities u4 ! nat np)" using j3 u4(4) by simp
  have e5: "entity (hn\<lparr>first_child := c\<rparr>) = entity hn" by simp
  from update_hierarchy_step[where f = "\<lambda>x. x\<lparr>first_child := c\<rparr>", OF u4(2) hn4 e5]
  obtain u5 where u5: "update_hierarchy j (\<lambda>x. x\<lparr>first_child := c\<rparr>) u4 = Some u5"
      "index_ok u5" "node_of u5 = (node_of u4)(np \<mapsto> hn\<lparr>first_child := c\<rparr>)"
      "m_entities u5 = m_entities u4"
    unfolding j4 by blast
  define hc' where "hc' = hc\<lparr>parent := np, local_transform := X, next_sibling := first_child hn\<rparr>"
  define hn' where "hn' = hn\<lparr>first_child := c\<rparr>"
  have v4: "node_of u4 = (node_of u1)(c \<mapsto> hc')"
    using u4(3) u3(3) u2(3) by (simp add: hc'_def)
  have v5: "node_of u5 = (node_of u4)(np \<mapsto> hn')" using u5(3) by (simp add: hn'_def)
  note k4 = cols_upd[OF v4] and k5 = cols_upd[OF v5]
  note c1 = cols_node[OF hc1] and cn1 = cols_node[OF hn]
  have D5: "dom (node_of u5) = dom (node_of u1)" unfolding k5 k4 using c1(1) cn1(1) by auto
  have P5: "parent_of u5 = (parent_of u1)(c := np)"
    unfolding k5 k4 using cn1(2) ne by (auto simp: hc'_def hn'_def fun_eq_iff)
  have F5: "first_child_of u5 = (first_child_of u1)(np := c)"
    unfolding k5 k4 using c1(3) ne by (auto simp: hc'_def hn'_def fun_eq_iff)
  have S5: "next_sibling_of u5 = (next_sibling_of u1)(c := first_child_of u1 np)"
    unfolding k5 k4 using cn1(2,3,4) ne by (auto simp: hc'_def hn'_def fun_eq_iff)
  have L5: "local_of u5 x = (if x = c then Some X else local_of u1 x)" for x
    unfolding k5 k4 using cn1(5) ne by (auto simp: hc'_def hn'_def)
  have rel1: "hierarchy_rel u1 = hierarchy_rel u"
    using hierarchy_rel_alt[of u1] hierarchy_rel_alt[of u] f1(4) by simp
  have root1: "parent_of u1 c < 0" using root f1(4) by (simp add: INVALID_ENTITY_def)
  have nd1: "(c, np) \<notin> (hierarchy_rel u1)\<^sup>+" using nd rel1 by simp
  have t5: "forest_of u5"
    unfolding D5 P5 F5 S5
    using forest_link[OF f1(2) c1(1) cn1(1) root1 ne[symmetric] nd1] .
  have tp2: "getTransform u2 np = Some tp" "getTransform u2 c = Some tc"
    using tp tc u2(5) f1(5) by (simp_all add: getTransform_def)
  have dn: "array_get (m_entities u) np = Some (m_entities u ! nat np)"
    using n0 by (simp add: array_get_def)
  have a: "setParent_attach M np c i u = Some u5"
    using True dn s1 u2(1) tp2 u3(1) rd u4(1) u5(1)
    by (simp add: setParent_attach_def isValid_def X_def)
  have fr: "hierarchy_frame u u5" using hierarchy_frame_setParent_attach[OF a] .
  have loc: "local_of u5 x = local_of u x" if x: "x \<noteq> c" "0 \<le> parent_of u x" for x
  proof -
    have xD: "x \<in> dom (node_of u)" using parent_of_nonneg_dom[OF x(2)] .
    have "node_of u1 x = node_of u x" using o1 k1 xD by (cases "x = np") auto
    then have "local_of u1 x = local_of u x" by (simp add: local_of_def)
    then show ?thesis using L5 x(1) by simp
  qed
  have "local_of u5 c = Some (mul M (inverted M tp) tc)" using L5 by (simp add: X_def)
  then show ?thesis
    using a u5(2) t5 fr P5 f1(4) loc tp tc True by auto
qed

subsection \<open>The effect of setParent\<close>

lemma hierarchy_frame_getTransform:
  "hierarchy_frame u u' \<Longrightarrow> getTransform u' e = getTransform u e"
  by (simp add: hierarchy_frame_def getTransform_def)

lemma hierarchy_frame_in_range:
  "hierarchy_frame u u' \<Longrightarrow> in_range u' e = in_range u e"
  using hierarchy_frame_length[of u u'] by (simp add: in_range_def)

lemma setParent_effect:
  assumes wf: "wf_hierarchy u" and r: "in_range u c" and rn: "np < 0 \<or> in_range u np"
      and ne: "np \<noteq> c"
  shows "\<exists>u'. (\<exists>n0. \<forall>n\<ge>n0. setParent n M np c u = Some u') \<and>
           (if 0 \<le> np \<and> (c, np) \<in> (hierarchy_rel u)\<^sup>+
            then u' = logError ''Hierarchy can not contains a cycle.'' u
            else wf_hierarchy u' \<and> hierarchy_frame u u' \<and>
                 parent_of u' = (parent_of u)(c := (if 0 \<le> np then np else INVALID_ENTITY)) \<and>
                 (\<forall>x. x \<noteq> c \<and> 0 \<le> parent_of u x \<longrightarrow> local_of u' x = local_of u x) \<and>
                 (0 \<le> np \<longrightarrow> (\<exists>tp tc. getTransform u np = Some tp \<and> getTransform u c = Some tc \<and>
                     local_of u' c = Some (mul M (inverted M tp) tc))))"
proof -
  have ok: "index_ok u" and t: "forest_of u" using wf by (simp_all add: wf_hierarchy_def)
  obtain n1 where n1: "\<forall>n\<ge>n1. isDescendant n u c np = Some ((c, np) \<in> (hierarchy_rel u)\<^sup>+)"
    using isDescendant_total[OF wf r] by blast
  show ?thesis
  proof (cases "0 \<le> np \<and> (c, np) \<in> (hierarchy_rel u)\<^sup>+")
    case True
    have "setParent n M np c u = Some (logError ''Hierarchy can not contains a cycle.'' u)"
      if nn: "n \<ge> n1" for n
    proof -
      have "isDescendant n u c np = Some True" using n1 nn True by simp
      then show ?thesis using True by (simp add: setParent_def isValid_def)
    qed
    then have "\<exists>n0. \<forall>n\<ge>n0. setParent n M np c u = Some (logError ''Hierarchy can not contains a cycle.'' u)"
      by blast
    then show ?thesis using True by auto
  next
    case False
    from detach_effect[OF ok t r, of np] obtain i u1 n2 where
          d: "\<forall>n\<ge>n2. setParent_detach n np c u = Some (i, u1)"
      and f1: "index_ok u1" "forest_of u1" "hierarchy_frame u u1"
          "i = hierarchy (m_entities u1 ! nat c)"
          "parent_of u1 = (parent_of u)(c := INVALID_ENTITY)"
          "\<forall>x. x \<noteq> c \<and> 0 \<le> parent_of u x \<longrightarrow> local_of u1 x = local_of u x"
          "0 \<le> np \<longrightarrow> c \<in> dom (node_of u1)" by blast
    have r1: "in_range u1 c" using r hierarchy_frame_in_range[OF f1(3)] by simp
    have root1: "parent_of u1 c = INVALID_ENTITY" using f1(5) by simp
    have sub: "hierarchy_rel u1 \<subseteq> hierarchy_rel u"
      using hierarchy_rel_alt[of u1] hierarchy_rel_alt[of u] f1(5)
      by (auto simp: INVALID_ENTITY_def split: if_splits)
    have np1: "in_range u1 np \<and> c \<in> dom (node_of u1) \<and> np \<noteq> c \<and>
               (c, np) \<notin> (hierarchy_rel u1)\<^sup>+" if "0 \<le> np"
    proof -
      have "(c, np) \<notin> (hierarchy_rel u)\<^sup>+" using False that by simp
      then have "(c, np) \<notin> (hierarchy_rel u1)\<^sup>+" using trancl_mono[OF _ sub] by blast
      moreover have "in_range u1 np" using rn that hierarchy_frame_in_range[OF f1(3)] by auto
      ultimately show ?thesis using f1(7) that ne by simp
    qed
    from attach_effect[OF f1(1,2) r1 f1(4) root1 np1, of M] obtain u' where
      a: "setParent_attach M np c i u1 = Some u'" and f': "index_ok u'" "forest_of u'"
         "hierarchy_frame u1 u'"
         "parent_of u' = (parent_of u1)(c := (if 0 \<le> np then np else INVALID_ENTITY))"
         "\<forall>x. x \<noteq> c \<and> 0 \<le> parent_of u1 x \<longrightarrow> local_of u' x = local_of u1 x"
         "0 \<le> np \<longrightarrow> (\<exists>tp tc. getTransform u1 np = Some tp \<and> getTransform u1 c = Some tc \<and>
               local_of u' c = Some (mul M (inverted M tp) tc))" by blast
    have s: "setParent n M np c u = Some u'" if nn: "n \<ge> max n1 n2" for n
    proof -
      have guard: "(if isValid np then isDescendant n u c np else Some False) = Some False"
        using n1 nn False by (auto simp: isValid_def)
      have "setParent_detach n np c u = Some (i, u1)" using d nn by simp
      then show ?thesis using guard a by (simp add: setParent_def)
    qed
    have S: "\<exists>n0. \<forall>n\<ge>n0. setParent n M np c u = Some u'" using s by blast
    have P: "parent_of u' = (parent_of u)(c := (if 0 \<le> np then np else INVALID_ENTITY))"
      using f'(4) f1(5) by simp
    have L: "\<forall>x. x \<noteq> c \<and> 0 \<le> parent_of u x \<longrightarrow> local_of u' x = local_of u x"
      using f'(5) f1(5,6) by simp
    have T: "0 \<le> np \<longrightarrow> (\<exists>tp tc. getTransform u np = Some tp \<and> getTransform u c = Some tc \<and>
               local_of u' c = Some (mul M (inverted M tp) tc))"
      using f'(6) hierarchy_frame_getTransform[OF f1(3)] by simp
    have F: "hierarchy_frame u u'" using hierarchy_frame_trans[OF f1(3) f'(3)] .
    have W: "wf_hierarchy u'" using f'(1,2) by (simp add: wf_hierarchy_def)
    have "wf_hierarchy u' \<and> hierarchy_frame u u' \<and>
                 parent_of u' = (parent_of u)(c := (if 0 \<le> np then np else INVALID_ENTITY)) \<and>
                 (\<forall>x. x \<noteq> c \<and> 0 \<le> parent_of u x \<longrightarrow> local_of u' x = local_of u x) \<and>
                 (0 \<le> np \<longrightarrow> (\<exists>tp tc. getTransform u np = Some tp \<and> getTransform u c = Some tc \<and>
                     local_of u' c = Some (mul M (inverted M tp) tc)))"
      using W F P L T by blast
    then show ?thesis using S False by (intro exI[of _ u'] conjI) auto
  qed
qed

subsection \<open>An entity as its own parent\<close>

lemma self_attach:
  assumes ok: "index_ok u" and n: "node_of u e = Some h"
  shows "\<exists>u'. setParent_attach M e e (hierarchy (m_entities u ! nat e)) u = Some u' \<and>
           getParent u' e = Some e \<and> getFirstChild u' e = Some e \<and> index_ok u' \<and>
           m_transforms u' = m_transforms u \<and> parent_of u' = (parent_of u)(e := e) \<and>
           (\<forall>x. x \<noteq> e \<longrightarrow> local_of u' x = local_of u x) \<and>
           (\<exists>t. getTransform u e = Some t \<and> local_of u' e = Some (mul M (inverted M t) t))"
proof -
  note ix = node_of_index[OF ok n]
  have r: "in_range u e" using ix(1,2) by (simp add: in_range_def)
  define i where "i = hierarchy (m_entities u ! nat e)"
  from update_hierarchy_step[where f = "\<lambda>x. x\<lparr>parent := e\<rparr>", OF ok n]
  obtain u2 where u2: "update_hierarchy i (\<lambda>x. x\<lparr>parent := e\<rparr>) u = Some u2" "index_ok u2"
      "node_of u2 = (node_of u)(e \<mapsto> h\<lparr>parent := e\<rparr>)"
      "m_entities u2 = m_entities u" "m_transforms u2 = m_transforms u"
    unfolding i_def by auto
  obtain t where t: "getTransform u e = Some t" using index_ok_transform[OF ok r] by blast
  have t2: "getTransform u2 e = Some t" using t u2(5) by (simp add: getTransform_def)
  define l where "l = mul M (inverted M t) t"
  have n2: "node_of u2 e = Some (h\<lparr>parent := e\<rparr>)" using u2(3) by simp
  from update_hierarchy_step[where f = "\<lambda>x. x\<lparr>local_transform := l\<rparr>", OF u2(2) n2]
  obtain u3 where u3: "update_hierarchy i (\<lambda>x. x\<lparr>local_transform := l\<rparr>) u2 = Some u3"
      "index_ok u3"
      "node_of u3 = (node_of u2)(e \<mapsto> h\<lparr>parent := e, local_transform := l\<rparr>)"
      "m_entities u3 = m_entities u2" "m_transforms u3 = m_transforms u2"
    unfolding i_def u2(4) by auto
  define h3 where "h3 = h\<lparr>parent := e, local_transform := l\<rparr>"
  have n3: "node_of u3 e = Some h3" using u3(3) by (simp add: h3_def)
  have e3: "m_entities u3 = m_entities u" using u3(4) u2(4) by simp
  have g3: "array_get (m_hierarchy u3) i = Some h3"
    using node_of_index(7)[OF u3(2) n3] unfolding e3 i_def .
  from update_hierarchy_step[where f = "\<lambda>x. x\<lparr>next_sibling := first_child h3\<rparr>", OF u3(2) n3]
  obtain u4 where u4: "update_hierarchy i (\<lambda>x. x\<lparr>next_sibling := first_child h3\<rparr>) u3 = Some u4"
      "index_ok u4"
      "node_of u4 = (node_of u3)(e \<mapsto> h3\<lparr>next_sibling := first_child h3\<rparr>)"
      "m_entities u4 = m_entities u3" "m_transforms u4 = m_transforms u3"
    unfolding i_def e3 by auto
  have n4: "node_of u4 e = Some (h3\<lparr>next_sibling := first_child h3\<rparr>)" using u4(3) by simp
  have e4: "m_entities u4 = m_entities u" using u4(4) e3 by simp
  from update_hierarchy_step[where f = "\<lambda>x. x\<lparr>first_child := e\<rparr>", OF u4(2) n4]
  obtain u5 where u5: "update_hierarchy i (\<lambda>x. x\<lparr>first_child := e\<rparr>) u4 = Some u5"
      "index_ok u5"
      "node_of u5 = (node_of u4)(e \<mapsto> h3\<lparr>next_sibling := first_child h3, first_child := e\<rparr>)"
      "m_entities u5 = m_entities u4" "m_transforms u5 = m_transforms u4"
    unfolding i_def e4 by auto
  have a: "setParent_attach M e e i u = Some u5"
    using ix(1,3,6) u2(1) t2 u3(1) g3 u4(1) u5(1)
    by (simp add: setParent_attach_def isValid_def i_def[symmetric] l_def[symmetric])
  have r5: "in_range u5 e" using r u5(4) e4 by (simp add: in_range_def)
  have "parent_of u5 e = e" "first_child_of u5 e = e"
    using u5(3) by (simp_all add: parent_of_def first_child_of_def h3_def)
  then have gp: "getParent u5 e = Some e" "getFirstChild u5 e = Some e"
    using getParent_wf[OF u5(2) r5] getFirstChild_wf[OF u5(2) r5] by simp_all
  define h5 where "h5 = h3\<lparr>next_sibling := first_child h3, first_child := e\<rparr>"
  have n5: "node_of u5 = (node_of u)(e \<mapsto> h5)"
    using u5(3) u4(3) u3(3) u2(3) by (simp add: h5_def)
  note k5 = cols_upd[OF n5]
  have tr5: "m_transforms u5 = m_transforms u" using u5(5) u4(5) u3(5) u2(5) by simp
  have P5: "parent_of u5 = (parent_of u)(e := e)" using k5(2) by (simp add: h5_def h3_def)
  have L5: "\<forall>x. x \<noteq> e \<longrightarrow> local_of u5 x = local_of u x" using k5(5) by simp
  have Le: "local_of u5 e = Some (mul M (inverted M t) t)"
    using k5(5) by (simp add: h5_def h3_def l_def)
  show ?thesis using a gp u5(2) tr5 P5 L5 Le t unfolding i_def by blast
qed

lemma setParent_self_effect:
  assumes wf: "wf_hierarchy u" and r: "in_range u e"
  shows "\<exists>u'. getParent u' e = Some e \<and> getFirstChild u' e = Some e \<and>
           (\<exists>n0. \<forall>n\<ge>n0. isDescendant n u e e = Some False \<and> setParent n M e e u = Some u')"
proof -
  have ok: "index_ok u" and t: "forest_of u" using wf by (simp_all add: wf_hierarchy_def)
  have e0: "0 \<le> e" using r by (simp add: in_range_def)
  have "acyclic (hierarchy_rel u)" using forest_acyclic[OF t] .
  then have nc: "(e, e) \<notin> (hierarchy_rel u)\<^sup>+" by (simp add: acyclic_def)
  obtain n1 where n1: "\<forall>n\<ge>n1. isDescendant n u e e = Some False"
    using isDescendant_total[OF wf r, of e] nc by auto
  from detach_effect[OF ok t r, of e] obtain i u1 n2 where
        d: "\<forall>n\<ge>n2. setParent_detach n e e u = Some (i, u1)"
    and f1: "index_ok u1" "i = hierarchy (m_entities u1 ! nat e)" "e \<in> dom (node_of u1)"
    using e0 by blast
  obtain h1 where h1: "node_of u1 e = Some h1" using f1(3) by auto
  from self_attach[OF f1(1) h1, of M] obtain u' where
    a: "setParent_attach M e e i u1 = Some u'" "getParent u' e = Some e"
       "getFirstChild u' e = Some e" unfolding f1(2) by blast
  have "isDescendant n u e e = Some False \<and> setParent n M e e u = Some u'"
    if nn: "n \<ge> max n1 n2" for n
  proof -
    have "isDescendant n u e e = Some False" using n1 nn by simp
    moreover have "setParent_detach n e e u = Some (i, u1)" using d nn by simp
    ultimately show ?thesis using a(1) e0 by (simp add: setParent_def isValid_def)
  qed
  then have "\<exists>n0. \<forall>n\<ge>n0. isDescendant n u e e = Some False \<and> setParent n M e e u = Some u'"
    by blast
  then show ?thesis using a(2,3) by blast
qed

subsection \<open>The child loop of destroyEntity\<close>

lemma no_children_if_no_first_child:
  assumes wf: "wf_hierarchy u" and e0: "0 \<le> e" and fc: "first_child_of u e < 0"
  shows "parent_of u x \<noteq> e"
proof
  assume p: "parent_of u x = e"
  have t: "forest_of u" using wf by (simp add: wf_hierarchy_def)
  have xD: "x \<in> dom (node_of u)" using parent_of_nonneg_dom[of u x] p e0 by simp
  have eD: "e \<in> dom (node_of u)" using forest_parent[OF t xD] p e0 by simp
  obtain cs where cs: "chain (dom (node_of u)) (next_sibling_of u) (first_child_of u e) cs"
      "set cs = {c \<in> dom (node_of u). parent_of u c = e}"
    using forest_children[OF t eD] by blast
  have "cs = []" using cs(1) chain_Nil_iff[OF fc] by simp
  then show False using cs(2) xD p by auto
qed

lemma first_child_is_child:
  assumes wf: "wf_hierarchy u" and fc: "0 \<le> first_child_of u e"
  shows "first_child_of u e \<in> dom (node_of u) \<and> parent_of u (first_child_of u e) = e"
proof -
  have t: "forest_of u" using wf by (simp add: wf_hierarchy_def)
  have eD: "e \<in> dom (node_of u)"
    using fc by (auto simp: first_child_of_def INVALID_ENTITY_def split: option.splits)
  obtain cs where cs: "chain (dom (node_of u)) (next_sibling_of u) (first_child_of u e) cs"
      "set cs = {c \<in> dom (node_of u). parent_of u c = e}"
    using forest_children[OF t eD] by blast
  obtain zs where "cs = first_child_of u e # zs" using chain_nonneg_Cons[OF fc cs(1)] by blast
  then have "first_child_of u e \<in> set cs" by simp
  then show ?thesis using cs(2) by simp
qed

lemma children_finite: "0 \<le> e \<Longrightarrow> finite {x. parent_of u x = e}"
proof -
  assume "0 \<le> e"
  then have "{x. parent_of u x = e} \<subseteq> dom (node_of u)"
    using parent_of_nonneg_dom[of u] by auto
  then show ?thesis using node_of_dom_finite finite_subset by blast
qed

lemma destroyEntity_children_effect:
  assumes wf: "wf_hierarchy u" and r: "in_range u e"
  shows "\<exists>u1. (\<exists>n0. \<forall>n\<ge>n0. destroyEntity_children n M e u = Some u1) \<and>
           wf_hierarchy u1 \<and> hierarchy_frame u u1 \<and>
           parent_of u1 = (\<lambda>x. if parent_of u x = e then INVALID_ENTITY else parent_of u x)"
  using wf r
proof (induction "card {x. parent_of u x = e}" arbitrary: u rule: less_induct)
  case less
  note wf = less.prems(1) and r = less.prems(2)
  have ok: "index_ok u" using wf by (simp add: wf_hierarchy_def)
  have e0: "0 \<le> e" using r by (simp add: in_range_def)
  define fc where "fc = first_child_of u e"
  have g: "getFirstChild u e = Some fc" using getFirstChild_wf[OF ok r] by (simp add: fc_def)
  show ?case
  proof (cases "0 \<le> fc")
    case False
    have "destroyEntity_children n M e u = Some u" if nn: "n \<ge> Suc 0" for n
    proof -
      obtain k where k: "n = Suc k" using nn by (cases n) simp_all
      show ?thesis unfolding k using g False by (simp add: isValid_def)
    qed
    then have "\<exists>n0. \<forall>n\<ge>n0. destroyEntity_children n M e u = Some u" by blast
    moreover have "parent_of u = (\<lambda>x. if parent_of u x = e then INVALID_ENTITY else parent_of u x)"
      using no_children_if_no_first_child[OF wf e0, of _] False by (auto simp: fc_def)
    ultimately show ?thesis using wf hierarchy_frame_refl[of u] by blast
  next
    case True
    have c: "fc \<in> dom (node_of u)" "parent_of u fc = e"
      using first_child_is_child[OF wf, of e] True by (simp_all add: fc_def)
    have rc: "in_range u fc" using node_of_dom[OF c(1)] .
    have nec: "INVALID_ENTITY \<noteq> fc" using True by (simp add: INVALID_ENTITY_def)
    from setParent_effect[OF wf rc _ nec, of M] obtain u' n1 where
        s: "\<forall>n\<ge>n1. setParent n M INVALID_ENTITY fc u = Some u'"
        and f: "wf_hierarchy u'" "hierarchy_frame u u'"
               "parent_of u' = (parent_of u)(fc := INVALID_ENTITY)"
      by (auto simp: INVALID_ENTITY_def)
    have r': "in_range u' e" using r hierarchy_frame_in_range[OF f(2)] by simp
    have set': "{x. parent_of u' x = e} = {x. parent_of u x = e} - {fc}"
      using f(3) e0 by (auto simp: INVALID_ENTITY_def)
    have "card {x. parent_of u' x = e} < card {x. parent_of u x = e}"
      unfolding set' using c(2) children_finite[OF e0, of u]
      by (intro card_Diff1_less) simp_all
    from less.hyps[OF this f(1) r'] obtain u1 n2 where
        l: "\<forall>n\<ge>n2. destroyEntity_children n M e u' = Some u1"
        and f1: "wf_hierarchy u1" "hierarchy_frame u' u1"
          "parent_of u1 = (\<lambda>x. if parent_of u' x = e then INVALID_ENTITY else parent_of u' x)"
      by blast
    have "destroyEntity_children n M e u = Some u1" if nn: "n \<ge> Suc (max n1 n2)" for n
    proof -
      obtain k where k: "n = Suc k" "n1 \<le> k" "n2 \<le> k" using nn by (cases n) simp_all
      show ?thesis unfolding k(1) using g True s l k(2,3) by (simp add: isValid_def)
    qed
    then have "\<exists>n0. \<forall>n\<ge>n0. destroyEntity_children n M e u = Some u1" by blast
    moreover have "parent_of u1 = (\<lambda>x. if parent_of u x = e then INVALID_ENTITY else parent_of u x)"
      unfolding f1(3) f(3) using c(2) e0 by (auto simp: INVALID_ENTITY_def fun_eq_iff)
    moreover have "hierarchy_frame u u1" using hierarchy_frame_trans[OF f(2) f1(2)] .
    ultimately show ?thesis using f1(1) by blast
  qed
qed

subsection \<open>The component loop of destroyEntity\<close>

lemma slots_frame_refl: "slots_frame e u u"
  by (simp add: slots_frame_def)

lemma slots_frame_trans: "slots_frame e u v \<Longrightarrow> slots_frame e v w \<Longrightarrow> slots_frame e u w"
  by (simp add: slots_frame_def)

lemma slots_frame_update_entity:
  assumes "update_entity x f u = Some u'" "x \<noteq> e \<Longrightarrow> \<forall>d. hierarchy (f d) = hierarchy d"
  shows "slots_frame e u u'"
proof -
  have x: "0 \<le> x" "u' = u\<lparr>m_entities := (m_entities u)[nat x := f (m_entities u ! nat x)]\<rparr>"
    and xl: "x < int (length (m_entities u))"
    using assms(1) by (simp_all add: update_entity_Some_iff)
  have "hierarchy ((m_entities u)[nat x := f (m_entities u ! nat x)] ! y) = hierarchy (m_entities u ! y)"
    if "y \<noteq> nat e" for y
  proof (cases "y = nat x")
    case True
    then have "x \<noteq> e" using that by auto
    then show ?thesis using assms(2) True xl x(1) by simp
  next
    case False
    then show ?thesis by simp
  qed
  then show ?thesis unfolding x(2) by (simp add: slots_frame_def)
qed

lemma slots_frame_getParent:
  assumes "slots_frame e u u'" "c \<noteq> e" "0 \<le> c" "0 \<le> e"
  shows "getParent u' c = getParent u c"
proof -
  have "nat c \<noteq> nat e" using assms(2,3,4) by auto
  then have "hierarchy (m_entities u' ! nat c) = hierarchy (m_entities u ! nat c)"
    using assms(1) by (simp add: slots_frame_def)
  then show ?thesis using assms(1) by (simp add: getParent_def slots_frame_def array_get_def)
qed

lemma hierarchy_frame_nth:
  assumes "hierarchy_frame u u'" "x < length (m_entities u)"
  shows "valid (m_entities u' ! x) = valid (m_entities u ! x)"
        "name (m_entities u' ! x) = name (m_entities u ! x)"
        "components (m_entities u' ! x) = components (m_entities u ! x)"
proof -
  have m: "map (\<lambda>d. d\<lparr>hierarchy := 0\<rparr>) (m_entities u') = map (\<lambda>d. d\<lparr>hierarchy := 0\<rparr>) (m_entities u)"
    using assms(1) by (simp add: hierarchy_frame_def)
  have l: "length (m_entities u') = length (m_entities u)" using m by (metis length_map)
  have "map (\<lambda>d. d\<lparr>hierarchy := 0\<rparr>) (m_entities u') ! x = map (\<lambda>d. d\<lparr>hierarchy := 0\<rparr>) (m_entities u) ! x"
    using m by simp
  then have e: "(m_entities u' ! x)\<lparr>hierarchy := 0\<rparr> = (m_entities u ! x)\<lparr>hierarchy := 0\<rparr>"
    using assms(2) l by simp
  show "valid (m_entities u' ! x) = valid (m_entities u ! x)"
    using arg_cong[OF e, of valid] by simp
  show "name (m_entities u' ! x) = name (m_entities u ! x)"
    using arg_cong[OF e, of name] by simp
  show "components (m_entities u' ! x) = components (m_entities u ! x)"
    using arg_cong[OF e, of components] by simp
qed

lemma and_andnot_subset: "((x::64 word) AND NOT b) AND y \<noteq> 0 \<Longrightarrow> x AND y \<noteq> 0"
  by (auto simp: bit_eq_iff bit_and_iff bit_not_iff)

lemma destroyEntity_components_effect:
  "array_get (m_entities u) e = Some d \<Longrightarrow> components d = msk \<Longrightarrow>
   (\<forall>i \<in> set is. 0 \<le> i \<and> i < MAX_TYPES_COUNT \<and>
       (msk AND push_bit (nat i) 1 \<noteq> 0 \<longrightarrow> map_of (m_component_type_map u) i \<noteq> None)) \<Longrightarrow>
   \<exists>c evs. destroyEntity_components is e msk u =
      Some (u\<lparr>m_entities := (m_entities u)[nat e := d\<lparr>components := c\<rparr>], m_events := evs\<rparr>)"
proof (induction "is" arbitrary: u d msk)
  case Nil
  have e: "0 \<le> e" "e < int (length (m_entities u))" "d = m_entities u ! nat e"
    using Nil(1) by (simp_all add: array_get_Some_iff)
  have "(m_entities u)[nat e := d\<lparr>components := components d\<rparr>] = m_entities u"
    using e by (simp add: list_update_same_conv)
  then have "u = u\<lparr>m_entities := (m_entities u)[nat e := d\<lparr>components := components d\<rparr>],
                   m_events := m_events u\<rparr>" by simp
  then show ?case by (metis destroyEntity_components.simps(1))
next
  case (Cons i "is")
  have e: "0 \<le> e" "e < int (length (m_entities u))" "d = m_entities u ! nat e"
    using Cons.prems(1) by (simp_all add: array_get_Some_iff)
  have i: "0 \<le> i" "i < MAX_TYPES_COUNT" using Cons.prems(3) by simp_all
  have rest: "\<forall>j \<in> set is. 0 \<le> j \<and> j < MAX_TYPES_COUNT \<and>
       (msk AND push_bit (nat j) 1 \<noteq> 0 \<longrightarrow> map_of (m_component_type_map u) j \<noteq> None)"
    using Cons.prems(3) by simp
  show ?case
  proof (cases "msk AND push_bit (nat i) 1 \<noteq> 0")
    case False
    then have "destroyEntity_components (i # is) e msk u = destroyEntity_components is e msk u"
      by simp
    then show ?thesis using Cons.IH[OF Cons.prems(1,2) rest] by simp
  next
    case True
    define b :: "64 word" where "b = push_bit (nat i) 1"
    obtain scene where sc: "map_of (m_component_type_map u) i = Some scene"
      using Cons.prems(3) True by auto
    have tb: "type_bit i = Some b" using i by (simp add: type_bit_def b_def)
    define d1 where "d1 = d\<lparr>components := msk AND NOT b\<rparr>"
    define u1 where "u1 = invoke (ComponentDestroyed e i scene)
                             (u\<lparr>m_entities := (m_entities u)[nat e := d1]\<rparr>)"
    have ch: "msk \<noteq> msk AND NOT b" using and_nonzero_changes True by (simp add: b_def)
    have od: "scene_destroyComponent scene i e u = Some u1"
      using Cons.prems(1,2) tb ch e(1,2)
      by (simp add: scene_destroyComponent_def onComponentDestroyed_def Let_def array_put_def
             u1_def d1_def)
    have g1: "array_get (m_entities u1) e = Some d1"
      using e(1,2) by (simp add: u1_def invoke_def array_get_def)
    have c1: "components d1 = msk AND NOT b" by (simp add: d1_def)
    have tm1: "m_component_type_map u1 = m_component_type_map u" by (simp add: u1_def invoke_def)
    have rest1: "\<forall>j \<in> set is. 0 \<le> j \<and> j < MAX_TYPES_COUNT \<and>
       ((msk AND NOT b) AND push_bit (nat j) 1 \<noteq> 0 \<longrightarrow> map_of (m_component_type_map u1) j \<noteq> None)"
      using rest and_andnot_subset[of msk b] unfolding tm1 by blast
    from Cons.IH[OF g1 c1 rest1] obtain c evs where
      r: "destroyEntity_components is e (msk AND NOT b) u1 =
            Some (u1\<lparr>m_entities := (m_entities u1)[nat e := d1\<lparr>components := c\<rparr>], m_events := evs\<rparr>)"
      by blast
    have eq: "u1\<lparr>m_entities := (m_entities u1)[nat e := d1\<lparr>components := c\<rparr>], m_events := evs\<rparr> =
              u\<lparr>m_entities := (m_entities u)[nat e := d\<lparr>components := c\<rparr>], m_events := evs\<rparr>"
      by (simp add: u1_def invoke_def d1_def)
    have "destroyEntity_components (i # is) e msk u =
            Some (u\<lparr>m_entities := (m_entities u)[nat e := d\<lparr>components := c\<rparr>], m_events := evs\<rparr>)"
      using True sc od g1 c1 ch r eq by (simp add: b_def[symmetric])
    then show ?thesis by blast
  qed
qed

subsection \<open>The slot after destroyEntity\<close>

lemma update_entity_total:
  assumes "0 \<le> x" "x < int (length (m_entities u))"
  shows "\<exists>u'. update_entity x f u = Some u' \<and>
           length (m_entities u') = length (m_entities u) \<and>
           m_names u' = m_names u \<and> m_first_free_slot u' = m_first_free_slot u \<and>
           m_entities u' ! nat x = f (m_entities u ! nat x) \<and>
           (\<forall>y. y \<noteq> nat x \<longrightarrow> m_entities u' ! y = m_entities u ! y)"
  using assms by (simp add: update_entity_Some_iff)

subsection \<open>Re-deriving the world transforms of the children\<close>



lemma same_hierarchy_trans: "same_hierarchy u v \<Longrightarrow> same_hierarchy v w \<Longrightarrow> same_hierarchy u w"
  by (simp add: same_hierarchy_def)


lemma hierarchy_rel_child: "(p, c) \<in> hierarchy_rel u \<longleftrightarrow> parent_of u c = p \<and> 0 \<le> p"
  using hierarchy_rel_alt[of u] by auto

lemma hierarchy_rel_parent:
  assumes "(a, y) \<in> (hierarchy_rel u)\<^sup>+"
  shows "0 \<le> parent_of u y \<and> (a, parent_of u y) \<in> (hierarchy_rel u)\<^sup>*"
proof -
  obtain z where z: "(a, z) \<in> (hierarchy_rel u)\<^sup>*" "(z, y) \<in> hierarchy_rel u"
    using assms by (meson tranclD2)
  then have "parent_of u y = z" "0 \<le> z" by (simp_all add: hierarchy_rel_child)
  then show ?thesis using z(1) by simp
qed




subsection \<open>Re-deriving the world transforms of a subtree\<close>



subsection \<open>transformEntity after a write to the world transform\<close>




subsection \<open>The six mutations\<close>





subsection \<open>The example family is well formed\<close>

lemma acyclic_increasing:
  assumes "\<forall>(p, c) \<in> R. p < (c::int)"
  shows "acyclic R"
proof -
  have "(a, b) \<in> R\<^sup>+ \<Longrightarrow> a < b" for a b
    by (induction rule: trancl.induct) (use assms in auto)
  then show ?thesis unfolding acyclic_def by blast
qed

lemma ex_family_node:
  "node_of ex_family e =
     (if e = 0 then Some (ex_node 0 (-1) 2 (-1) (ex_transform 7 7))
      else if e = 1 then Some (ex_node 1 0 3 (-1) (ex_transform 1 (1 / 2)))
      else if e = 2 then Some (ex_node 2 0 (-1) 1 (ex_transform 2 1))
      else if e = 3 then Some (ex_node 3 1 (-1) (-1) (ex_transform 1 1))
      else None)"
proof -
  have "e < 0 \<or> e = 0 \<or> e = 1 \<or> e = 2 \<or> e = 3 \<or> e = 4 \<or> 5 \<le> e" by arith
  then show ?thesis
    by (elim disjE) (simp_all add: node_of_def array_get_def ex_family_def ex_entity_def)
qed

lemma ex_family_dom: "dom (node_of ex_family) = {0, 1, 2, 3}"
  by (auto simp: dom_def ex_family_node split: if_splits)

lemma ex_family_cols:
  "parent_of ex_family = (\<lambda>e. if e = 1 \<or> e = 2 then 0 else if e = 3 then 1 else - 1)"
  "first_child_of ex_family = (\<lambda>e. if e = 0 then 2 else if e = 1 then 3 else - 1)"
  "next_sibling_of ex_family = (\<lambda>e. if e = 2 then 1 else - 1)"
  by (auto simp: parent_of_def first_child_of_def next_sibling_of_def ex_family_node ex_node_def
        INVALID_ENTITY_def fun_eq_iff)

lemma ex_family_index_ok: "index_ok ex_family"
  by (simp add: index_ok_def ex_family_def ex_entity_def ex_node_def All_less_Suc)

lemma ex_family_wf: "wf_hierarchy ex_family"
proof -
  let ?D = "{0, 1, 2, 3} :: int set"
  let ?P = "\<lambda>e::int. if e = 1 \<or> e = 2 then 0 else if e = 3 then 1 else (- 1 :: int)"
  let ?F = "\<lambda>e::int. if e = 0 then 2 else if e = 1 then 3 else (- 1 :: int)"
  let ?S = "\<lambda>e::int. if e = 2 then 1 else (- 1 :: int)"
  have c0: "{c \<in> ?D. ?P c = 0} = {1, 2}" by auto
  have c1: "{c \<in> ?D. ?P c = 1} = {3}" by auto
  have c2: "{c \<in> ?D. ?P c = 2} = {}" by auto
  have c3: "{c \<in> ?D. ?P c = 3} = {}" by auto
  have "forest ?D ?P ?F ?S"
  proof (rule forestI)
    fix e :: int assume "e \<in> ?D"
    then show "0 \<le> e" by auto
  next
    fix e :: int assume "e \<in> ?D"
    show "- 1 \<le> ?P e" by simp
  next
    fix e :: int assume "e \<in> ?D" "0 \<le> ?P e"
    then show "?P e \<in> ?D" by (simp split: if_splits)
  next
    fix e :: int assume "e \<in> ?D" "?P e < 0"
    then show "?S e < 0" by (simp split: if_splits)
  next
    fix e :: int assume eD: "e \<in> ?D"
    then consider "e = 0" | "e = 1" | "e = 2" | "e = 3" by auto
    then show "\<exists>cs. chain ?D ?S (?F e) cs \<and> set cs = {c \<in> ?D. ?P c = e}"
    proof cases
      case 1
      have "chain ?D ?S (?F 0) [2, 1] \<and> set [2, 1] = {c \<in> ?D. ?P c = 0}"
        unfolding c0 by auto
      then show ?thesis using 1 by blast
    next
      case 2
      have "chain ?D ?S (?F 1) [3] \<and> set [3] = {c \<in> ?D. ?P c = 1}"
        unfolding c1 by simp
      then show ?thesis using 2 by blast
    next
      case 3
      have "chain ?D ?S (?F 2) [] \<and> set [] = {c \<in> ?D. ?P c = 2}"
        unfolding c2 by simp
      then show ?thesis using 3 by blast
    next
      case 4
      have "chain ?D ?S (?F 3) [] \<and> set [] = {c \<in> ?D. ?P c = 3}"
        unfolding c3 by simp
      then show ?thesis using 4 by blast
    qed
  next
    have "p < c" if "c \<in> ?D" "?P c = p" for p c
      using that by auto
    then show "acyclic (parent_rel ?D ?P)"
      by (intro acyclic_increasing) (auto simp only: parent_rel_def mem_Collect_eq split_paired_all case_prod_conv)
  qed
  then have "forest_of ex_family" unfolding ex_family_dom ex_family_cols .
  then show ?thesis unfolding wf_hierarchy_def using ex_family_index_ok by blast
qed

lemma ex_family_in_range: "in_range ex_family e \<longleftrightarrow> 0 \<le> e \<and> e < 5"
  by (simp add: in_range_def ex_family_def)



lemma ex_family_world:
  "getTransform ex_family 0 = Some (ex_transform 1 2)"
  "getTransform ex_family 1 = Some (ex_transform 3 1)"
  "getTransform ex_family 2 = Some (ex_transform 5 2)"
  "getTransform ex_family 3 = Some (ex_transform 4 1)"
  "getTransform ex_family 4 = Some (ex_transform 0 1)"
  by (simp_all add: getTransform_def array_get_def ex_family_def)


lemma ex_family_names_ok: "names_ok ex_family"
  by (simp add: names_ok_def ex_family_def ex_entity_def All_less_Suc)

lemma exp_and_push_bit:
  assumes "(2 ^ m :: 64 word) AND push_bit n 1 \<noteq> 0"
  shows "n = m"
proof -
  have "bit (2 ^ m :: 64 word) n"
    using assms by (simp add: and_exp_eq_0_iff_not_bit)
  then show ?thesis by (simp add: bit_exp_iff)
qed

lemma push_bit_and_4:
  assumes "(4 :: 64 word) AND push_bit n 1 \<noteq> 0"
  shows "n = 2"
proof -
  have e: "(4 :: 64 word) = 2 ^ 2" by simp
  show ?thesis using assms exp_and_push_bit[of 2 n] unfolding e by blast
qed

lemma ex_family_components_ok: "components_ok ex_family"
  unfolding components_ok_def
proof (intro ballI impI)
  fix d i
  assume d: "d \<in> set (m_entities ex_family)" and i: "i \<in> set [0..MAX_TYPES_COUNT - 1]"
     and b: "components d AND push_bit (nat i) 1 \<noteq> 0"
  have "components d = 4 \<or> components d = 0"
    using d by (auto simp: ex_family_def ex_entity_def)
  then have "nat i = 2" using b push_bit_and_4 by auto
  moreover have "0 \<le> i" using i by simp
  ultimately have "i = 2" by simp
  then show "map_of (m_component_type_map ex_family) i \<noteq> None"
    by (simp add: ex_family_def)
qed

subsection \<open>Reparenting returns\<close>

lemma getLocalTransform_node:
  assumes "index_ok u" "in_range u e" "local_of u e = Some l"
  shows "getLocalTransform u e = Some l"
proof -
  obtain h where h: "node_of u e = Some h" "local_transform h = l"
    using assms(3) by (auto simp: local_of_def)
  note ix = node_of_index[OF assms(1) h(1)]
  show ?thesis using ix(3,6,7) h(2) by (simp add: getLocalTransform_def)
qed


lemma setParent_returns_frame:
  assumes "setParent fuel M new_parent child u = Some u'"
      and "\<not> (isValid new_parent \<and> isDescendant fuel u child new_parent = Some True)"
  shows "m_transforms u' = m_transforms u \<and> hierarchy_frame u u' \<and>
         (isValid new_parent \<longrightarrow>
            (\<exists>tp tc. getTransform u new_parent = Some tp \<and> getTransform u child = Some tc \<and>
               getLocalTransform u' child = Some (mul M (inverted M tp) tc)))"
proof -
  obtain i u1 where d: "setParent_detach fuel new_parent child u = Some (i, u1)"
    and a: "setParent_attach M new_parent child i u1 = Some u'"
    using assms by (auto simp: setParent_def split: bind_splits if_splits)
  have f1: "hierarchy_frame u u1" using d by (rule hierarchy_frame_setParent_detach)
  have f2: "hierarchy_frame u1 u'" using a by (rule hierarchy_frame_setParent_attach)
  have f: "hierarchy_frame u u'" using f1 f2 by (rule hierarchy_frame_trans)
  have tr: "m_transforms u1 = m_transforms u" using f1 by (simp add: hierarchy_frame_def)
  have loc: "\<exists>tp tc. getTransform u new_parent = Some tp \<and> getTransform u child = Some tc \<and>
               getLocalTransform u' child = Some (mul M (inverted M tp) tc)" if v: "isValid new_parent"
  proof -
    obtain d' where "array_get (m_entities u1) child = Some d'" "hierarchy d' = i"
      using setParent_detach_index[OF d] by blast
    from setParent_attach_local[OF a v this] show ?thesis
      by (simp add: getTransform_def tr)
  qed
  show ?thesis using f loc by (auto simp: hierarchy_frame_def)
qed

lemma setParent_total:
  assumes wf: "wf_hierarchy u" and r: "in_range u c" and rn: "np < 0 \<or> in_range u np"
  shows "\<exists>u'. \<exists>n0. \<forall>n\<ge>n0. setParent n M np c u = Some u' \<and>
            isDescendant n u c np = Some ((c, np) \<in> (hierarchy_rel u)\<^sup>+)"
proof -
  obtain n1 where n1: "\<forall>n\<ge>n1. isDescendant n u c np = Some ((c, np) \<in> (hierarchy_rel u)\<^sup>+)"
    using isDescendant_total[OF wf r] by blast
  have "\<exists>u'. \<exists>n0. \<forall>n\<ge>n0. setParent n M np c u = Some u'"
  proof (cases "np = c")
    case False
    from setParent_effect[OF wf r rn False, of M] show ?thesis by blast
  next
    case True
    have e0: "0 \<le> c" using r by (simp add: in_range_def)
    from setParent_self_effect[OF wf r, of M] show ?thesis using True by blast
  qed
  then obtain u' n2 where n2: "\<forall>n\<ge>n2. setParent n M np c u = Some u'" by blast
  have "\<forall>n\<ge>max n1 n2. setParent n M np c u = Some u' \<and>
            isDescendant n u c np = Some ((c, np) \<in> (hierarchy_rel u)\<^sup>+)"
    using n1 n2 by simp
  then show ?thesis by blast
qed

subsection \<open>A parent of scale zero\<close>











subsection \<open>Descendants in the example family\<close>

lemma ex_family_no_parent_4: "(a, 4) \<notin> (hierarchy_rel ex_family)\<^sup>+"
proof
  assume "(a, 4) \<in> (hierarchy_rel ex_family)\<^sup>+"
  then have "0 \<le> parent_of ex_family 4" using hierarchy_rel_parent by blast
  then show False by (simp add: ex_family_cols)
qed


section \<open>Claims about names and the hierarchy\<close>

text \<open>
  Claim C10. For an entity \<open>e\<close> that owns the name entry \<open>name d\<close>, whether it is a root or
  a child, \<open>setEntityName(e, "")\<close> overwrites the stored string with the empty string and keeps
  the entry: afterwards \<open>getEntityName(e)\<close> is the empty string, the name index of \<open>e\<close>, the
  owner of the entry and the length of the name table are as before, and the entry holds the
  empty string. If moreover \<open>e\<close> has no parent and no earlier entry holds the empty string,
  \<open>findByName\<close> with no parent and the empty string returns \<open>e\<close>.
\<close>

theorem setEntityName_empty_keeps_slot:
  assumes d: "array_get (m_entities u) e = Some d" and k: "0 \<le> name d"
      and n: "array_get (m_names u) (name d) = Some n" and owner: "en_entity n = e"
  shows "\<exists>u'. setEntityName N e [] u = Some u' \<and>
           getEntityName u' e = Some [] \<and>
           map_option name (array_get (m_entities u') e) = Some (name d) \<and>
           map_option en_entity (array_get (m_names u') (name d)) = Some e \<and>
           map_option en_name (array_get (m_names u') (name d)) = Some [] \<and>
           length (m_names u') = length (m_names u) \<and>
           ((\<exists>p. getParent u e = Some p \<and> \<not> isValid p) \<and>
            (\<forall>j < nat (name d). en_name (m_names u ! j) \<noteq> []) \<longrightarrow>
              (\<forall>fuel. findByName fuel u' INVALID_ENTITY [] = Some e))"
proof -
  let ?k = "nat (name d)"
  let ?n' = "n\<lparr>en_name := []\<rparr>"
  let ?u' = "u\<lparr>m_names := (m_names u)[?k := ?n']\<rparr>"
  have kl: "?k < length (m_names u)" and nk: "n = m_names u ! ?k"
    using n k by (auto simp: array_get_Some_iff)
  have set: "setEntityName N e [] u = Some ?u'"
    using d k n kl by (auto simp: setEntityName_def copyString_def array_put_def Let_def)
  have get: "getEntityName ?u' e = Some []"
    using d k kl by (simp add: getEntityName_def array_get_def)
  have keep: "map_option name (array_get (m_entities ?u') e) = Some (name d)"
      "map_option en_entity (array_get (m_names ?u') (name d)) = Some e"
      "map_option en_name (array_get (m_names ?u') (name d)) = Some []"
      "length (m_names ?u') = length (m_names u)"
    using d kl k owner by (simp_all add: array_get_def)
  have find: "findByName fuel ?u' INVALID_ENTITY [] = Some e"
    if root: "\<exists>p. getParent u e = Some p \<and> \<not> isValid p"
    and earlier: "\<forall>j < nat (name d). en_name (m_names u ! j) \<noteq> []" for fuel
  proof -
    have split: "(m_names u)[?k := ?n'] = take ?k (m_names u) @ ?n' # drop (Suc ?k) (m_names u)"
      using kl by (rule upd_conv_take_nth_drop)
    have pre: "\<forall>x \<in> set (take ?k (m_names u)). en_name x \<noteq> []"
      using earlier kl by (auto simp: in_set_conv_nth)
    have at_e: "findByName_root ?u' [] (?n' # drop (Suc ?k) (m_names u)) = Some e"
      using d owner root
      by (auto simp: getParent_def split: if_splits bind_splits)
    show ?thesis
      using findByName_root_skip[OF pre, of ?u' "?n' # drop (Suc ?k) (m_names u)"] at_e split
      by (simp add: findByName_def INVALID_ENTITY_def isValid_def)
  qed
  show ?thesis
    using set get keep find by blast
qed

theorem setEntityName_empty_keeps_slot_witness:
  "getParent ex_family 1 = Some 0 \<and>
   (\<exists>u'. setEntityName 32 1 [] ex_family = Some u' \<and>
        getEntityName u' 1 = Some [] \<and>
        map_option name (array_get (m_entities u') 1) = Some 1 \<and>
        map_option en_entity (array_get (m_names u') 1) = Some 1 \<and>
        map_option en_name (array_get (m_names u') 1) = Some [] \<and>
        length (m_names u') = length (m_names ex_family)) \<and>
   getParent ex_family 0 = Some INVALID_ENTITY \<and>
   (\<exists>u'. setEntityName 32 0 [] ex_family = Some u' \<and>
        getEntityName u' 0 = Some [] \<and>
        map_option name (array_get (m_entities u') 0) = Some 0 \<and>
        findByName 0 u' INVALID_ENTITY [] = Some 0)"
proof -
  have p: "getParent ex_family 1 = Some 0" "getParent ex_family 0 = Some INVALID_ENTITY"
    by (simp_all add: getParent_def array_get_def ex_family_def ex_entity_def ex_node_def
          INVALID_ENTITY_def)
  have d1: "array_get (m_entities ex_family) 1 = Some (ex_entity 1 1)"
    by (simp add: ex_family_def array_get_def)
  have k1: "0 \<le> name (ex_entity 1 1)" "name (ex_entity 1 1) = 1" by (simp_all add: ex_entity_def)
  have n1: "array_get (m_names ex_family) (name (ex_entity 1 1)) = Some \<lparr>en_entity = 1, en_name = ''a''\<rparr>"
    by (simp add: ex_family_def ex_entity_def array_get_def)
  have o1: "en_entity \<lparr>en_entity = 1, en_name = ''a''\<rparr> = 1" by simp
  have a: "\<exists>u'. setEntityName 32 1 [] ex_family = Some u' \<and>
        getEntityName u' 1 = Some [] \<and>
        map_option name (array_get (m_entities u') 1) = Some 1 \<and>
        map_option en_entity (array_get (m_names u') 1) = Some 1 \<and>
        map_option en_name (array_get (m_names u') 1) = Some [] \<and>
        length (m_names u') = length (m_names ex_family)"
    using setEntityName_empty_keeps_slot[OF d1 k1(1) n1 o1, of 32] unfolding k1(2) by blast
  have d0: "array_get (m_entities ex_family) 0 = Some ((ex_entity 0 0)\<lparr>components := 4\<rparr>)"
    by (simp add: ex_family_def array_get_def)
  have k0: "0 \<le> name ((ex_entity 0 0)\<lparr>components := 4\<rparr>)"
     "name ((ex_entity 0 0)\<lparr>components := 4\<rparr>) = 0" by (simp_all add: ex_entity_def)
  have n0: "array_get (m_names ex_family) (name ((ex_entity 0 0)\<lparr>components := 4\<rparr>)) =
              Some \<lparr>en_entity = 0, en_name = ''root''\<rparr>"
    by (simp add: ex_family_def ex_entity_def array_get_def)
  have o0: "en_entity \<lparr>en_entity = 0, en_name = ''root''\<rparr> = 0" by simp
  have root: "\<exists>q. getParent ex_family 0 = Some q \<and> \<not> isValid q"
    using p(2) by (simp add: INVALID_ENTITY_def isValid_def)
  have b: "\<exists>u'. setEntityName 32 0 [] ex_family = Some u' \<and>
        getEntityName u' 0 = Some [] \<and>
        map_option name (array_get (m_entities u') 0) = Some 0 \<and>
        findByName 0 u' INVALID_ENTITY [] = Some 0"
    using setEntityName_empty_keeps_slot[OF d0 k0(1) n0 o0, of 32] root unfolding k0(2) by auto
  show ?thesis using p a b by blast
qed

text \<open>
  Claim C3. Every \<open>setParent(new_parent, child)\<close> that completes without being rejected by
  the cycle guard leaves the whole store of world transforms as it was, changes at most the
  hierarchy table and the hierarchy indices of the entity records (\<open>hierarchy_frame\<close>), and for
  a valid \<open>new_parent\<close> leaves \<open>inverted(world(new_parent)) * world(child)\<close> as the local
  transform of \<open>child\<close>. And the call does complete, with the guard answering false and with
  that same effect, on every well-formed hierarchy where \<open>child\<close> is a slot of the table,
  \<open>new_parent\<close> is a slot or no entity, and \<open>new_parent\<close> is not a descendant of \<open>child\<close>.
\<close>

theorem setParent_no_jump:
  "(\<forall>fuel u'. setParent fuel M new_parent child u = Some u' \<and>
        \<not> (isValid new_parent \<and> isDescendant fuel u child new_parent = Some True) \<longrightarrow>
        m_transforms u' = m_transforms u \<and> hierarchy_frame u u' \<and>
        (isValid new_parent \<longrightarrow>
           (\<exists>tp tc. getTransform u new_parent = Some tp \<and> getTransform u child = Some tc \<and>
              getLocalTransform u' child = Some (mul M (inverted M tp) tc)))) \<and>
   (wf_hierarchy u \<and> in_range u child \<and> (\<not> isValid new_parent \<or> in_range u new_parent) \<and>
    \<not> (isValid new_parent \<and> (child, new_parent) \<in> (hierarchy_rel u)\<^sup>+) \<longrightarrow>
      (\<exists>u'. (\<exists>n0. \<forall>n\<ge>n0. setParent n M new_parent child u = Some u' \<and>
                    isDescendant n u child new_parent = Some False) \<and>
            m_transforms u' = m_transforms u \<and> hierarchy_frame u u' \<and>
            (isValid new_parent \<longrightarrow>
               (\<exists>tp tc. getTransform u new_parent = Some tp \<and> getTransform u child = Some tc \<and>
                  getLocalTransform u' child = Some (mul M (inverted M tp) tc)))))"
proof (rule conjI; (intro allI)?; rule impI)
  fix fuel u'
  assume a: "setParent fuel M new_parent child u = Some u' \<and>
        \<not> (isValid new_parent \<and> isDescendant fuel u child new_parent = Some True)"
  show "m_transforms u' = m_transforms u \<and> hierarchy_frame u u' \<and>
        (isValid new_parent \<longrightarrow>
           (\<exists>tp tc. getTransform u new_parent = Some tp \<and> getTransform u child = Some tc \<and>
              getLocalTransform u' child = Some (mul M (inverted M tp) tc)))"
    using setParent_returns_frame[of fuel M new_parent child u u'] a by blast
next
  assume h: "wf_hierarchy u \<and> in_range u child \<and> (\<not> isValid new_parent \<or> in_range u new_parent) \<and>
    \<not> (isValid new_parent \<and> (child, new_parent) \<in> (hierarchy_rel u)\<^sup>+)"
  then have wf: "wf_hierarchy u" and r: "in_range u child"
    and rn: "new_parent < 0 \<or> in_range u new_parent"
    and nd: "\<not> (isValid new_parent \<and> (child, new_parent) \<in> (hierarchy_rel u)\<^sup>+)"
    by (auto simp: isValid_def)
  have nd': "(child, new_parent) \<notin> (hierarchy_rel u)\<^sup>+"
  proof
    assume d: "(child, new_parent) \<in> (hierarchy_rel u)\<^sup>+"
    then obtain z where "(z, new_parent) \<in> hierarchy_rel u" by (meson tranclD2)
    then have "new_parent \<in> dom (node_of u)" by (simp add: parent_rel_def)
    then have "0 \<le> new_parent" using node_of_dom[of new_parent u] by (simp add: in_range_def)
    then show False using nd d by (simp add: isValid_def)
  qed
  from setParent_total[OF wf r rn, of M] obtain u' n0 where
    s: "\<forall>n\<ge>n0. setParent n M new_parent child u = Some u' \<and>
            isDescendant n u child new_parent = Some False"
    using nd' by auto
  then have s0: "setParent n0 M new_parent child u = Some u'"
     "\<not> (isValid new_parent \<and> isDescendant n0 u child new_parent = Some True)" by simp_all
  from setParent_returns_frame[OF s0] s
  show "\<exists>u'. (\<exists>n0. \<forall>n\<ge>n0. setParent n M new_parent child u = Some u' \<and>
                    isDescendant n u child new_parent = Some False) \<and>
            m_transforms u' = m_transforms u \<and> hierarchy_frame u u' \<and>
            (isValid new_parent \<longrightarrow>
               (\<exists>tp tc. getTransform u new_parent = Some tp \<and> getTransform u child = Some tc \<and>
                  getLocalTransform u' child = Some (mul M (inverted M tp) tc)))"
    by blast
qed

theorem setParent_no_jump_witness:
  "wf_hierarchy ex_family \<and> in_range ex_family 1 \<and> in_range ex_family 4 \<and>
   getParent ex_family 1 = Some 0 \<and>
   \<not> (isValid 4 \<and> (1, 4) \<in> (hierarchy_rel ex_family)\<^sup>+) \<and>
   (\<exists>u'. (\<exists>n0. \<forall>n\<ge>n0. setParent n spec_math 4 1 ex_family = Some u' \<and>
                  isDescendant n ex_family 1 4 = Some False) \<and>
         m_transforms u' = m_transforms ex_family \<and> hierarchy_frame ex_family u' \<and>
         getLocalTransform u' 1 = Some (ex_transform 3 1))"
proof -
  have r: "in_range ex_family 1" "in_range ex_family 4" by (simp_all add: ex_family_in_range)
  have p: "getParent ex_family 1 = Some 0"
    by (simp add: getParent_def array_get_def ex_family_def ex_entity_def ex_node_def)
  have nd: "\<not> (isValid 4 \<and> (1, 4) \<in> (hierarchy_rel ex_family)\<^sup>+)"
    using ex_family_no_parent_4 by blast
  have v: "isValid 4" by (simp add: isValid_def)
  have m: "mul spec_math (inverted spec_math (ex_transform 0 1)) (ex_transform 3 1) = ex_transform 3 1"
    by (simp add: spec_math_def Transform_mul_def Transform_inverted_def ex_transform_def)
  have "\<exists>u'. (\<exists>n0. \<forall>n\<ge>n0. setParent n spec_math 4 1 ex_family = Some u' \<and>
                    isDescendant n ex_family 1 4 = Some False) \<and>
            m_transforms u' = m_transforms ex_family \<and> hierarchy_frame ex_family u' \<and>
            (isValid 4 \<longrightarrow>
               (\<exists>tp tc. getTransform ex_family 4 = Some tp \<and> getTransform ex_family 1 = Some tc \<and>
                  getLocalTransform u' 1 = Some (mul spec_math (inverted spec_math tp) tc)))"
    using setParent_no_jump[of spec_math 4 1 ex_family] ex_family_wf r nd by blast
  then show ?thesis using ex_family_wf r p nd v m by (auto simp: ex_family_world)
qed



text \<open>
  Claim C9. In a well-formed (hence acyclic) hierarchy, for a slot \<open>e\<close> of the table,
  \<open>isDescendant(e, e)\<close> answers false, so \<open>setParent(e, e)\<close> is not rejected; the call completes
  and afterwards \<open>getParent(e) = e\<close> and \<open>getFirstChild(e) = e\<close>: the hierarchy has a self-loop.
\<close>

theorem setParent_self_loop:
  assumes wf: "wf_hierarchy u" and r: "in_range u e"
  shows "\<exists>u'. getParent u' e = Some e \<and> getFirstChild u' e = Some e \<and>
           (\<exists>n0. \<forall>n\<ge>n0. isDescendant n u e e = Some False \<and> setParent n M e e u = Some u')"
  using wf r by (rule setParent_self_effect)

theorem setParent_self_loop_witness:
  "wf_hierarchy ex_family \<and> in_range ex_family 2 \<and>
   (\<exists>u'. getParent u' 2 = Some 2 \<and> getFirstChild u' 2 = Some 2 \<and>
      (\<exists>n0. \<forall>n\<ge>n0. isDescendant n ex_family 2 2 = Some False \<and>
                       setParent n spec_math 2 2 ex_family = Some u'))"
proof -
  have r: "in_range ex_family 2" by (simp add: ex_family_in_range)
  from setParent_self_loop[OF ex_family_wf r, of spec_math] show ?thesis
    using ex_family_wf r by blast
qed

text \<open>
  Claim C6. \<open>destroyEntity(e)\<close> of a valid entity \<open>e\<close> completes on a well-formed hierarchy
  whose name table and component masks are consistent and whose free-list head is a slot of
  the table or none; afterwards every entity that had \<open>e\<close> as its parent has no parent and has
  the world transform it had before the call.
\<close>

theorem destroyEntity_children_become_roots:
  assumes wf: "wf_hierarchy u" and v: "hasEntity u e" and nm: "names_ok u"
      and co: "components_ok u"
      and ff: "m_first_free_slot u < int (length (m_entities u))"
  shows "\<exists>u'. (\<exists>n0. \<forall>n\<ge>n0. destroyEntity n M e u = Some u') \<and>
           (\<forall>c. getParent u c = Some e \<longrightarrow>
                getParent u' c = Some INVALID_ENTITY \<and> getTransform u' c = getTransform u c)"
proof -
  have e: "0 \<le> e" "e < int (length (m_entities u))" "valid (m_entities u ! nat e)"
    using v by (simp_all add: hasEntity_def)
  have r: "in_range u e" using e by (simp add: in_range_def)
  have ne: "nat e < length (m_entities u)" using e by simp
  define d where "d = m_entities u ! nat e"
  have g: "array_get (m_entities u) e = Some d" using e by (simp add: array_get_def d_def)
  have ok: "index_ok u" and t: "forest_of u" using wf by (simp_all add: wf_hierarchy_def)
  from destroyEntity_children_effect[OF wf r, of M] obtain u1 n1 where
      s1: "\<forall>n\<ge>n1. destroyEntity_children n M e u = Some u1"
      and f1: "wf_hierarchy u1" "hierarchy_frame u u1"
        "parent_of u1 = (\<lambda>x. if parent_of u x = e then INVALID_ENTITY else parent_of u x)"
    by blast
  have r1: "in_range u1 e" using r hierarchy_frame_in_range[OF f1(2)] by simp
  have nee: "INVALID_ENTITY \<noteq> e" using e(1) by (simp add: INVALID_ENTITY_def)
  from setParent_effect[OF f1(1) r1 _ nee, of M] obtain u2 n2 where
      s2: "\<forall>n\<ge>n2. setParent n M INVALID_ENTITY e u1 = Some u2"
      and f2: "wf_hierarchy u2" "hierarchy_frame u1 u2"
              "parent_of u2 = (parent_of u1)(e := INVALID_ENTITY)"
    by (auto simp: INVALID_ENTITY_def)
  have fr: "hierarchy_frame u u2" using hierarchy_frame_trans[OF f1(2) f2(2)] .
  have ok2: "index_ok u2" using f2(1) by (simp add: wf_hierarchy_def)
  have l2: "length (m_entities u2) = length (m_entities u)" using hierarchy_frame_length[OF fr] .
  define d2 where "d2 = m_entities u2 ! nat e"
  have g2: "array_get (m_entities u2) e = Some d2" using e l2 by (simp add: array_get_def d2_def)
  note same = hierarchy_frame_nth[OF fr ne]
  have same2: "name d2 = name d" "components d2 = components d"
    using same by (simp_all add: d2_def d_def)
  have fields2: "m_names u2 = m_names u" "m_first_free_slot u2 = m_first_free_slot u"
      "m_component_type_map u2 = m_component_type_map u" "m_transforms u2 = m_transforms u"
    using fr by (simp_all add: hierarchy_frame_def)
  have dmem: "d \<in> set (m_entities u)" using ne by (simp add: d_def)
  have pre: "\<forall>i \<in> set [0..MAX_TYPES_COUNT - 1]. 0 \<le> i \<and> i < MAX_TYPES_COUNT \<and>
       (components d2 AND push_bit (nat i) 1 \<noteq> 0 \<longrightarrow> map_of (m_component_type_map u2) i \<noteq> None)"
    using co dmem unfolding components_ok_def same2 fields2 by auto
  from destroyEntity_components_effect[OF g2 refl pre] obtain c evs where
    s3: "destroyEntity_components [0..MAX_TYPES_COUNT - 1] e (components d2) u2 =
          Some (u2\<lparr>m_entities := (m_entities u2)[nat e := d2\<lparr>components := c\<rparr>], m_events := evs\<rparr>)"
    by blast
  define u3 where "u3 = u2\<lparr>m_entities := (m_entities u2)[nat e := d2\<lparr>components := c\<rparr>], m_events := evs\<rparr>"
  have p3: "length (m_entities u3) = length (m_entities u)" "m_names u3 = m_names u"
      "m_first_free_slot u3 = m_first_free_slot u" "name (m_entities u3 ! nat e) = name d"
    using l2 ne fields2 same2 by (simp_all add: u3_def)
  have sf3: "slots_frame e u2 u3"
    using l2 ne by (simp add: slots_frame_def u3_def d2_def nth_list_update)
  define f4 where "f4 = (\<lambda>x::EntityData. x\<lparr>next_free := m_first_free_slot u3, prev := -1, hierarchy := -1,
                      valid := False\<rparr>)"
  have e3: "e < int (length (m_entities u3))" using e p3 by simp
  from update_entity_total[OF e(1) e3, of f4] obtain u4 where
    s4: "update_entity e f4 u3 = Some u4" and p4: "length (m_entities u4) = length (m_entities u3)"
       "m_names u4 = m_names u3" "m_first_free_slot u4 = m_first_free_slot u3"
       "m_entities u4 ! nat e = f4 (m_entities u3 ! nat e)" by blast
  have sf4: "slots_frame e u3 u4" using slots_frame_update_entity[OF s4] by simp
  have n4: "name (m_entities u4 ! nat e) = name d" using p4(4) p3(4) by (simp add: f4_def)
  define u5 where "u5 = (if 0 \<le> m_first_free_slot u4
      then the (update_entity (m_first_free_slot u4) (\<lambda>x. x\<lparr>prev := e\<rparr>) u4) else u4)"
  have s5: "(if 0 \<le> m_first_free_slot u4
               then update_entity (m_first_free_slot u4) (\<lambda>x. x\<lparr>prev := e\<rparr>) u4
               else Some u4) = Some u5"
    and p5: "length (m_entities u5) = length (m_entities u)" "m_names u5 = m_names u"
       "name (m_entities u5 ! nat e) = name d" "slots_frame e u4 u5"
  proof -
    show "(if 0 \<le> m_first_free_slot u4
               then update_entity (m_first_free_slot u4) (\<lambda>x. x\<lparr>prev := e\<rparr>) u4
               else Some u4) = Some u5"
      using ff p4 p3 by (auto simp: u5_def update_entity_Some_iff)
    have q: "length (m_entities u5) = length (m_entities u) \<and> m_names u5 = m_names u \<and>
       name (m_entities u5 ! nat e) = name d \<and> slots_frame e u4 u5"
    proof (cases "0 \<le> m_first_free_slot u4")
      case False
      then show ?thesis using p4 p3 n4 by (simp add: u5_def slots_frame_refl)
    next
      case True
      have lt: "m_first_free_slot u4 < int (length (m_entities u4))" using ff p4 p3 by simp
      from update_entity_total[OF True lt, of "\<lambda>x. x\<lparr>prev := e\<rparr>"] obtain w where
        w: "update_entity (m_first_free_slot u4) (\<lambda>x. x\<lparr>prev := e\<rparr>) u4 = Some w"
          "length (m_entities w) = length (m_entities u4)" "m_names w = m_names u4"
          "m_entities w ! nat (m_first_free_slot u4) =
             (m_entities u4 ! nat (m_first_free_slot u4))\<lparr>prev := e\<rparr>"
          "\<forall>y. y \<noteq> nat (m_first_free_slot u4) \<longrightarrow> m_entities w ! y = m_entities u4 ! y"
        by blast
      have "u5 = w" using True w(1) by (simp add: u5_def)
      moreover have "name (m_entities w ! nat e) = name d"
        using w(4,5) n4 by (cases "nat e = nat (m_first_free_slot u4)") auto
      moreover have "slots_frame e u4 w" using slots_frame_update_entity[OF w(1)] by simp
      ultimately show ?thesis using w(2,3) p4 p3 by simp
    qed
    show "length (m_entities u5) = length (m_entities u)" "m_names u5 = m_names u"
       "name (m_entities u5 ! nat e) = name d" "slots_frame e u4 u5"
      using q by simp_all
  qed
  define d5 where "d5 = m_entities u5 ! nat e"
  have g5: "array_get (m_entities u5) e = Some d5" using e p5(1) by (simp add: array_get_def d5_def)
  have n5: "name d5 = name d" using p5(3) by (simp add: d5_def)
  have "\<exists>u6. (if 0 \<le> name d5 then
                 (if m_names u5 = [] then None
                  else do {
                    u51 \<leftarrow> update_entity (en_entity (last (m_names u5)))
                             (\<lambda>x. x\<lparr>name := name d5\<rparr>) u5;
                    names \<leftarrow> eraseFast (m_names u51) (name d5);
                    update_entity e (\<lambda>x. x\<lparr>name := -1\<rparr>) (u51\<lparr>m_names := names\<rparr>)
                  })
               else Some u5) = Some u6 \<and> slots_frame e u5 u6"
  proof (cases "0 \<le> name d5")
    case False
    then show ?thesis by (simp add: slots_frame_refl)
  next
    case True
    have nl: "name d < int (length (m_names u))" using nm dmem by (simp add: names_ok_def)
    then have nn: "m_names u \<noteq> []" using True n5 by auto
    define k where "k = length (m_names u) - 1"
    have k: "k < length (m_names u)" "last (m_names u) = m_names u ! k"
      using nn by (simp_all add: k_def last_conv_nth)
    define x where "x = en_entity (last (m_names u))"
    have x: "0 \<le> x" "x < int (length (m_entities u5))"
      using nm k unfolding names_ok_def x_def p5(1) by auto
    from update_entity_total[OF x, of "\<lambda>x. x\<lparr>name := name d5\<rparr>"] obtain u51 where
      w: "update_entity x (\<lambda>x. x\<lparr>name := name d5\<rparr>) u5 = Some u51"
          "length (m_entities u51) = length (m_entities u5)" "m_names u51 = m_names u5"
      by blast
    have sf51: "slots_frame e u5 u51" using slots_frame_update_entity[OF w(1)] by simp
    define names where "names = butlast ((m_names u)[nat (name d5) := last (m_names u)])"
    have er: "eraseFast (m_names u51) (name d5) = Some names"
      using True nl n5 w(3) p5(2) by (simp add: eraseFast_def names_def)
    have e51: "e < int (length (m_entities (u51\<lparr>m_names := names\<rparr>)))"
      using e w(2) p5(1) by simp
    from update_entity_total[OF e(1) e51, of "\<lambda>x. x\<lparr>name := -1\<rparr>"] obtain u6 where
      w6: "update_entity e (\<lambda>x. x\<lparr>name := -1\<rparr>) (u51\<lparr>m_names := names\<rparr>) = Some u6" by blast
    have "slots_frame e u51 (u51\<lparr>m_names := names\<rparr>)" by (simp add: slots_frame_def)
    then have "slots_frame e u5 u6"
      using slots_frame_trans sf51 slots_frame_update_entity[OF w6] by blast
    then show ?thesis using True nn w(1) er w6 p5(2) by (simp add: x_def)
  qed
  then obtain u6 where s6: "(if 0 \<le> name d5 then
                 (if m_names u5 = [] then None
                  else do {
                    u51 \<leftarrow> update_entity (en_entity (last (m_names u5)))
                             (\<lambda>x. x\<lparr>name := name d5\<rparr>) u5;
                    names \<leftarrow> eraseFast (m_names u51) (name d5);
                    update_entity e (\<lambda>x. x\<lparr>name := -1\<rparr>) (u51\<lparr>m_names := names\<rparr>)
                  })
               else Some u5) = Some u6" and sf6: "slots_frame e u5 u6" by blast
  define u' where "u' = invoke (EntityDestroyed e) (u6\<lparr>m_first_free_slot := e\<rparr>)"
  have sf': "slots_frame e u6 u'" by (simp add: slots_frame_def u'_def invoke_def)
  have sf: "slots_frame e u2 u'"
    using slots_frame_trans[OF sf3] slots_frame_trans[OF sf4] slots_frame_trans[OF p5(4)]
          slots_frame_trans[OF sf6 sf'] by blast
  have run: "destroyEntity n M e u = Some u'" if nn: "n \<ge> max n1 n2" for n
  proof -
    have a: "destroyEntity_children n M e u = Some u1" using s1 nn by simp
    have b: "setParent n M INVALID_ENTITY e u1 = Some u2" using s2 nn by simp
    show ?thesis
      unfolding destroyEntity_def
      using g e(3) a b g2 s3 s4 s5 g5 s6
      by (simp add: d_def u3_def[symmetric] f4_def[symmetric] u'_def)
  qed
  have post: "getParent u' c = Some INVALID_ENTITY \<and> getTransform u' c = getTransform u c"
    if c: "getParent u c = Some e" for c
  proof -
    have cr: "in_range u c" using c by (auto simp: getParent_def in_range_def array_get_def split: bind_splits if_splits)
    have pc: "parent_of u c = e" using getParent_wf[OF ok cr] c by simp
    have cD: "c \<in> dom (node_of u)" using parent_of_nonneg_dom[of u c] pc e(1) by simp
    have ce: "c \<noteq> e" using forest_not_self_parent[OF t cD] pc e(1) by auto
    have "parent_of u2 c = INVALID_ENTITY" unfolding f2(3) f1(3) using pc ce by simp
    moreover have "in_range u2 c" using cr hierarchy_frame_in_range[OF fr] by simp
    ultimately have "getParent u2 c = Some INVALID_ENTITY" using getParent_wf[OF ok2] by simp
    moreover have "0 \<le> c" using cr by (simp add: in_range_def)
    ultimately have "getParent u' c = Some INVALID_ENTITY"
      using slots_frame_getParent[OF sf ce _ e(1)] by simp
    moreover have "m_transforms u' = m_transforms u"
      using sf fields2(4) by (simp add: slots_frame_def)
    ultimately show ?thesis by (simp add: getTransform_def)
  qed
  have "\<exists>n0. \<forall>n\<ge>n0. destroyEntity n M e u = Some u'" using run by blast
  then show ?thesis using post by blast
qed

theorem destroyEntity_children_become_roots_witness:
  "wf_hierarchy ex_family \<and> hasEntity ex_family 0 \<and> names_ok ex_family \<and>
   components_ok ex_family \<and>
   m_first_free_slot ex_family < int (length (m_entities ex_family)) \<and>
   getParent ex_family 1 = Some 0 \<and> getParent ex_family 2 = Some 0 \<and>
   (\<exists>u'. (\<exists>n0. \<forall>n\<ge>n0. destroyEntity n spec_math 0 ex_family = Some u') \<and>
      getParent u' 1 = Some INVALID_ENTITY \<and> getTransform u' 1 = Some (ex_transform 3 1) \<and>
      getParent u' 2 = Some INVALID_ENTITY \<and> getTransform u' 2 = Some (ex_transform 5 2))"
proof -
  have v: "hasEntity ex_family 0" by (simp add: hasEntity_def ex_family_def ex_entity_def)
  have f: "m_first_free_slot ex_family < int (length (m_entities ex_family))"
    by (simp add: ex_family_def)
  have p: "getParent ex_family 1 = Some 0" "getParent ex_family 2 = Some 0"
    by (simp_all add: getParent_def array_get_def ex_family_def ex_entity_def ex_node_def)
  from destroyEntity_children_become_roots[OF ex_family_wf v ex_family_names_ok
         ex_family_components_ok f, of spec_math]
  obtain u' where u': "\<exists>n0. \<forall>n\<ge>n0. destroyEntity n spec_math 0 ex_family = Some u'"
     "\<forall>c. getParent ex_family c = Some 0 \<longrightarrow>
          getParent u' c = Some INVALID_ENTITY \<and> getTransform u' c = getTransform ex_family c"
    by blast
  have "getParent u' 1 = Some INVALID_ENTITY \<and> getTransform u' 1 = Some (ex_transform 3 1) \<and>
      getParent u' 2 = Some INVALID_ENTITY \<and> getTransform u' 2 = Some (ex_transform 5 2)"
    using u'(2) p by (simp add: ex_family_world)
  then show ?thesis
    using ex_family_wf v ex_family_names_ok ex_family_components_ok f p u'(1) by blast
qed

section \<open>The transform invariant\<close>



text \<open>
  A parent of scale zero has no left inverse in the transform algebra of the spec: whatever
  local transform is stored for the child, the composition has scale zero.
\<close>

lemma zero_scale_absorbs: "scale (mul spec_math (ex_transform px 0) l) = 0"
  by (simp add: spec_math_def Transform_mul_def ex_transform_def)


end
